theory Spec2Isabelle
  imports
    Main
    "HOL-Library.Word"
    "HOL-Library.Char_ord"
    "HOL-Library.List_Lexorder"
    "HOL-Library.AList"
begin

section \<open>Replication coordinator client of StorageReplicatedMergeTree\<close>

text \<open>
  A shallow embedding of \<^verbatim>\<open>dbms/src/Storages/StorageReplicatedMergeTree.cpp\<close>.
  Exceptions are values of the type \<open>error\<close>; a function that can throw returns
  \<open>error + 'a\<close>, and one that also changes the coordinator returns the new coordinator
  state beside it, because the writes made before an exception stay.
\<close>

subsection \<open>Errors\<close>

datatype zcode = ZNONODE | ZNODEEXISTS | ZNOTEMPTY

datatype error =
    KeeperException zcode
  | REPLICA_IS_ALREADY_ACTIVE
  | TOO_MANY_UNEXPECTED_DATA_PARTS
  | NO_REPLICA_HAS_PART
  | TABLE_IS_READ_ONLY
  | CANNOT_PARSE_INPUT_ASSERTION_FAILED
  | CANNOT_PARSE_NUMBER
  | OUT_OF_RANGE
  | CHECKSUM_MISMATCH
  | FETCH_FAILED
  | MERGE_FAILED

subsection \<open>Text buffers\<close>

definition nl :: string where
  "nl = [CHR 0x0A]"

definition tab :: char where
  "tab = CHR 0x09"

text \<open>
  Modelled from the spec: the helpers \<^verbatim>\<open>writeString\<close>, \<^verbatim>\<open>assertString\<close> and
  \<^verbatim>\<open>readString\<close> of the IO library are not in this file. The text form is line-oriented:
  a \<^verbatim>\<open>WriteBuffer\<close> is the text written so far, a \<^verbatim>\<open>ReadBuffer\<close> the text not yet
  read; \<^verbatim>\<open>assertString\<close> consumes a literal or fails; \<^verbatim>\<open>readString\<close> reads up to,
  and not including, the next tab or end of line.
\<close>

definition writeString :: "string \<Rightarrow> string \<Rightarrow> string" where
  "writeString s out = out @ s"

definition assertString :: "string \<Rightarrow> string \<Rightarrow> error + string" where
  "assertString s buf =
     (if take (length s) buf = s then Inr (drop (length s) buf)
      else Inl CANNOT_PARSE_INPUT_ASSERTION_FAILED)"

definition is_delim :: "char \<Rightarrow> bool" where
  "is_delim c = (c = tab \<or> c = CHR 0x0A)"

definition readString :: "string \<Rightarrow> string \<times> string" where
  "readString buf = (takeWhile (\<lambda>c. \<not> is_delim c) buf, dropWhile (\<lambda>c. \<not> is_delim c) buf)"

subsection \<open>Log entries and their text form\<close>

datatype Type = GET_PART | MERGE_PARTS

record LogEntry =
  znode_name :: string
  type :: Type
  source_replica :: string
  new_part_name :: string
  parts_to_merge :: "string list"

text \<open>\<^verbatim>\<open>LogEntry::writeText\<close>; the loop over \<^verbatim>\<open>parts_to_merge\<close> is \<open>write_parts\<close>.\<close>

fun write_parts :: "string list \<Rightarrow> string \<Rightarrow> string" where
  "write_parts [] out = out"
| "write_parts (s # ss) out = write_parts ss (writeString nl (writeString s out))"

definition writeText :: "LogEntry \<Rightarrow> string \<Rightarrow> string" where
  "writeText e out =
     (let out = writeString (''format version: 1'' @ nl) out;
          out = writeString ''source replica: '' out;
          out = writeString (source_replica e) out;
          out = writeString nl out;
          out = (case type e of
                   GET_PART \<Rightarrow>
                     writeString (new_part_name e) (writeString (''get'' @ nl) out)
                 | MERGE_PARTS \<Rightarrow>
                     writeString (new_part_name e)
                       (writeString (''into'' @ nl)
                         (write_parts (parts_to_merge e) (writeString (''merge'' @ nl) out))))
      in writeString nl out)"

text \<open>
  \<^verbatim>\<open>LogEntry::readText\<close>. The \<^verbatim>\<open>while (true)\<close> loop of the merge branch is
  \<open>read_parts\<close>: every turn consumes an end of line or throws, so it ends with the buffer.
\<close>

function read_parts :: "string list \<Rightarrow> string \<Rightarrow> error + (string list \<times> string)" where
  "read_parts acc buf =
     (case assertString nl (snd (readString buf)) of
        Inl e \<Rightarrow> Inl e
      | Inr buf' \<Rightarrow>
          if fst (readString buf) = ''into'' then Inr (acc, buf')
          else read_parts (acc @ [fst (readString buf)]) buf')"
  by pat_completeness auto
termination
proof (relation "measure (\<lambda>(acc, buf). length buf)")
  show "wf (measure (\<lambda>(acc, buf). length buf))" by simp
next
  fix acc :: "string list" and buf buf' :: string
  assume "assertString nl (snd (readString buf)) = Inr buf'"
  then have "snd (readString buf) \<noteq> []" and "buf' = drop 1 (snd (readString buf))"
    by (auto simp: assertString_def nl_def split: if_splits)
  moreover have "length (snd (readString buf)) \<le> length buf"
    by (simp add: readString_def length_dropWhile_le)
  ultimately have "length buf' < length buf"
    by (cases "snd (readString buf)") auto
  then show "((acc @ [fst (readString buf)], buf'), (acc, buf)) \<in> measure (\<lambda>(acc, buf). length buf)"
    by simp
qed

declare read_parts.simps [simp del]

definition readText :: "LogEntry \<Rightarrow> string \<Rightarrow> error + (LogEntry \<times> string)" where
  "readText this buf0 =
     (case assertString (''format version: 1'' @ nl) buf0 of Inl e \<Rightarrow> Inl e | Inr buf1 \<Rightarrow>
     (case assertString ''source replica: '' buf1 of Inl e \<Rightarrow> Inl e | Inr buf2 \<Rightarrow>
     (let this1 = this\<lparr>source_replica := fst (readString buf2)\<rparr> in
     (case assertString nl (snd (readString buf2)) of Inl e \<Rightarrow> Inl e | Inr buf3 \<Rightarrow>
     (let type_str = fst (readString buf3) in
     (case assertString nl (snd (readString buf3)) of Inl e \<Rightarrow> Inl e | Inr buf4 \<Rightarrow>
       (if type_str = ''get'' then
          (let this2 = this1\<lparr>type := GET_PART, new_part_name := fst (readString buf4)\<rparr> in
           (case assertString nl (snd (readString buf4)) of
              Inl e \<Rightarrow> Inl e
            | Inr buf5 \<Rightarrow> Inr (this2, buf5)))
        else if type_str = ''merge'' then
          (case read_parts (parts_to_merge this1) buf4 of
             Inl e \<Rightarrow> Inl e
           | Inr (ps, buf5) \<Rightarrow>
              (let this2 = this1\<lparr>type := MERGE_PARTS, parts_to_merge := ps,
                                  new_part_name := fst (readString buf5)\<rparr> in
               (case assertString nl (snd (readString buf5)) of
                  Inl e \<Rightarrow> Inl e
                | Inr buf6 \<Rightarrow> Inr (this2, buf6))))
        else
          (case assertString nl buf4 of
             Inl e \<Rightarrow> Inl e
           | Inr buf5 \<Rightarrow> Inr (this1, buf5)))))))))"

text \<open>
  A well-formed entry: its names are node names of the coordinator, which hold neither a
  tab nor an end of line; a part to merge is a part name, never the terminator \<open>into\<close>;
  and only a merge entry lists parts to merge.
\<close>

definition plain :: "string \<Rightarrow> bool" where
  "plain s = (\<forall>c \<in> set s. \<not> is_delim c)"

definition well_formed :: "LogEntry \<Rightarrow> bool" where
  "well_formed e =
     (plain (source_replica e) \<and> plain (new_part_name e) \<and>
      list_all (\<lambda>s. plain s \<and> s \<noteq> ''into'') (parts_to_merge e) \<and>
      (type e = GET_PART \<longrightarrow> parts_to_merge e = []))"

text \<open>The merge entry of scenario S4, written by replica \<open>r1\<close>.\<close>

definition S4_merge :: LogEntry where
  "S4_merge = \<lparr>znode_name = '''', type = MERGE_PARTS, source_replica = ''r1'',
     new_part_name = ''p3'', parts_to_merge = [''p1'', ''p2'']\<rparr>"

subsection \<open>Decimal numbers\<close>

text \<open>
  Modelled from the spec: \<^verbatim>\<open>toString\<close> and \<^verbatim>\<open>parse<UInt64>\<close> are not in this file.
  Indices and pointers are decimal numerals; \<^verbatim>\<open>UInt64\<close> is \<open>64 word\<close>. \<open>toString\<close>
  writes a number without leading zeros. \<open>parseUInt64\<close> reads the leading decimal digits
  of a text, in 64-bit arithmetic, and throws on a text without a leading digit.
\<close>

type_synonym UInt64 = "64 word"

definition digit_char :: "nat \<Rightarrow> char" where
  "digit_char d = ''0123456789'' ! d"

fun toString :: "nat \<Rightarrow> string" where
  "toString n = (if n < 10 then [digit_char n] else toString (n div 10) @ [digit_char (n mod 10)])"

declare toString.simps [simp del]

definition is_digit :: "char \<Rightarrow> bool" where
  "is_digit c = (48 \<le> (of_char c :: nat) \<and> (of_char c :: nat) \<le> 57)"

definition digit_val :: "char \<Rightarrow> nat" where
  "digit_val c = of_char c - 48"

fun readIntText :: "UInt64 \<Rightarrow> string \<Rightarrow> UInt64" where
  "readIntText x [] = x"
| "readIntText x (c # cs) =
     (if is_digit c then readIntText (x * 10 + of_nat (digit_val c)) cs else x)"

definition parseUInt64 :: "string \<Rightarrow> error + UInt64" where
  "parseUInt64 s =
     (case s of [] \<Rightarrow> Inl CANNOT_PARSE_NUMBER
      | c # cs \<Rightarrow> if is_digit c then Inr (readIntText 0 s) else Inl CANNOT_PARSE_NUMBER)"

text \<open>The number that a text of decimal digits denotes, after the digits \<open>a\<close> read so far.\<close>

fun digits_value :: "nat \<Rightarrow> string \<Rightarrow> nat" where
  "digits_value a [] = a"
| "digits_value a (c # cs) = digits_value (10 * a + digit_val c) cs"

text \<open>
  The loop \<^verbatim>\<open>while (s.size() < 10) s = '0' + s\<close> that pads an index to the ten digits of
  a sequential node name.
\<close>

definition pad10 :: "string \<Rightarrow> string" where
  "pad10 s = replicate (10 - length s) (CHR ''0'') @ s"

text \<open>\<^verbatim>\<open>std::string::substr(pos)\<close> throws when \<open>pos\<close> is past the end.\<close>

definition substr :: "string \<Rightarrow> nat \<Rightarrow> error + string" where
  "substr s pos = (if pos \<le> length s then Inr (drop pos s) else Inl OUT_OF_RANGE)"

text \<open>The index of a log node: \<^verbatim>\<open>parse<UInt64>(entry.substr(strlen("log-")))\<close>.\<close>

definition log_index :: "string \<Rightarrow> error + UInt64" where
  "log_index entry = (case substr entry 4 of Inl e \<Rightarrow> Inl e | Inr s \<Rightarrow> parseUInt64 s)"

subsection \<open>The coordinator\<close>

text \<open>
  Modelled from the spec: the coordinator adapter (\<^verbatim>\<open>zkutil::ZooKeeper\<close>) is not in this
  file. The coordinator is a tree of nodes addressed by paths; a path is the list of the
  node names on it, so that \<^verbatim>\<open>replica_path + "/log/" + entry\<close> is
  \<open>replica_path @ [''log'', entry]\<close>. A node holds its text value, the identifier
  \<open>czxid\<close> of the transaction that created it, whether it is ephemeral, and the counter
  from which the coordinator takes the ten-digit suffix of its next sequential child.
  The nodes are kept in creation order. \<open>multi\<close> runs its operations atomically: all of
  them, under one transaction identifier, or none.
\<close>

type_synonym path = "string list"

datatype CreateMode = Persistent | Ephemeral | PersistentSequential

record znode =
  node_value :: string
  czxid :: int
  ephemeral :: bool
  next_seq :: nat

record coordinator =
  nodes :: "(path \<times> znode) list"
  zxid :: int

datatype Op = Create path string CreateMode | SetData path string | Remove path

definition lookup :: "coordinator \<Rightarrow> path \<Rightarrow> znode option" where
  "lookup z p = map_of (nodes z) p"

definition exists :: "coordinator \<Rightarrow> path \<Rightarrow> bool" where
  "exists z p = (lookup z p \<noteq> None)"

definition tryGet :: "coordinator \<Rightarrow> path \<Rightarrow> string option" where
  "tryGet z p = map_option node_value (lookup z p)"

definition children :: "coordinator \<Rightarrow> path \<Rightarrow> string list" where
  "children z p = map last (filter (\<lambda>k. k \<noteq> [] \<and> butlast k = p) (map fst (nodes z)))"

definition getChildren :: "coordinator \<Rightarrow> path \<Rightarrow> error + string list" where
  "getChildren z p = (if exists z p then Inr (children z p) else Inl (KeeperException ZNONODE))"

definition created_name :: "coordinator \<Rightarrow> path \<Rightarrow> CreateMode \<Rightarrow> string" where
  "created_name z p mode =
     (if mode = PersistentSequential
      then last p @ pad10 (toString (case lookup z (butlast p) of None \<Rightarrow> 0 | Some n \<Rightarrow> next_seq n))
      else last p)"

text \<open>One operation, inside the transaction \<open>zx\<close>. A create returns the path created.\<close>

fun apply_op :: "int \<Rightarrow> coordinator \<Rightarrow> Op \<Rightarrow> zcode + (coordinator \<times> path)" where
  "apply_op zx z (Create p v mode) =
     (if p = [] then Inl ZNODEEXISTS
      else case lookup z (butlast p) of
        None \<Rightarrow> Inl ZNONODE
      | Some parent \<Rightarrow>
          let p' = butlast p @ [created_name z p mode] in
          if exists z p' then Inl ZNODEEXISTS
          else Inr (z\<lparr>nodes :=
                  AList.update p' \<lparr>node_value = v, czxid = zx,
                                   ephemeral = (mode = Ephemeral), next_seq = 0\<rparr>
                    (AList.update (butlast p) (parent\<lparr>next_seq := Suc (next_seq parent)\<rparr>)
                      (nodes z))\<rparr>, p'))"
| "apply_op zx z (SetData p v) =
     (case lookup z p of
        None \<Rightarrow> Inl ZNONODE
      | Some n \<Rightarrow> Inr (z\<lparr>nodes := AList.update p (n\<lparr>node_value := v\<rparr>) (nodes z)\<rparr>, p))"
| "apply_op zx z (Remove p) =
     (if \<not> exists z p then Inl ZNONODE
      else if children z p \<noteq> [] then Inl ZNOTEMPTY
      else Inr (z\<lparr>nodes := AList.delete p (nodes z)\<rparr>, p))"

fun apply_ops :: "int \<Rightarrow> coordinator \<Rightarrow> Op list \<Rightarrow> zcode + (coordinator \<times> path list)" where
  "apply_ops zx z [] = Inr (z, [])"
| "apply_ops zx z (op # ops) =
     (case apply_op zx z op of
        Inl c \<Rightarrow> Inl c
      | Inr (z', p) \<Rightarrow>
          (case apply_ops zx z' ops of
             Inl c \<Rightarrow> Inl c
           | Inr (z'', ps) \<Rightarrow> Inr (z'', p # ps)))"

text \<open>\<^verbatim>\<open>tryMulti\<close>: the code of the first operation that fails, and then no change.\<close>

definition tryMulti :: "coordinator \<Rightarrow> Op list \<Rightarrow> (zcode + path list) \<times> coordinator" where
  "tryMulti z ops =
     (case apply_ops (zxid z + 1) z ops of
        Inl c \<Rightarrow> (Inl c, z)
      | Inr (z', ps) \<Rightarrow> (Inr ps, z'\<lparr>zxid := zxid z + 1\<rparr>))"

text \<open>\<^verbatim>\<open>multi\<close>, \<^verbatim>\<open>create\<close>, \<^verbatim>\<open>remove\<close>: the same, throwing \<^verbatim>\<open>KeeperException\<close>.\<close>

definition multi :: "coordinator \<Rightarrow> Op list \<Rightarrow> (error + path list) \<times> coordinator" where
  "multi z ops =
     (case tryMulti z ops of
        (Inl c, z') \<Rightarrow> (Inl (KeeperException c), z')
      | (Inr ps, z') \<Rightarrow> (Inr ps, z'))"

definition create :: "coordinator \<Rightarrow> path \<Rightarrow> string \<Rightarrow> CreateMode \<Rightarrow> (error + path list) \<times> coordinator" where
  "create z p v mode = multi z [Create p v mode]"

definition remove :: "coordinator \<Rightarrow> path \<Rightarrow> (error + path list) \<times> coordinator" where
  "remove z p = multi z [Remove p]"

definition tryRemove :: "coordinator \<Rightarrow> path \<Rightarrow> (zcode + path list) \<times> coordinator" where
  "tryRemove z p = tryMulti z [Remove p]"

subsection \<open>The storage object\<close>

text \<open>
  The members of \<^verbatim>\<open>StorageReplicatedMergeTree\<close> that the functions below read or write.
  A thread, a handle or a holder is the flag whether it is running or set.
  \<open>future_parts\<close> and \<open>virtual_parts\<close> are the names added to these sets.
\<close>

record storage =
  zookeeper_path :: path
  replica_name :: string
  active_node_identifier :: string
  is_read_only :: bool
  shutdown_called :: bool
  permanent_shutdown_called :: bool
  is_leader_node :: bool
  queue :: "LogEntry list"
  future_parts :: "string list"
  virtual_parts :: "string list"
  leader_election :: bool
  replica_is_active_node :: "path option"
  endpoint_holder :: bool
  merger_cancelled :: bool
  restarting_thread :: bool
  queue_updating_thread :: bool
  merge_selecting_thread :: bool
  clear_old_blocks_thread :: bool
  queue_task_handle :: bool

text \<open>\<^verbatim>\<open>replica_path = zookeeper_path + "/replicas/" + replica_name\<close>, set by the constructor.\<close>

definition replica_path :: "storage \<Rightarrow> path" where
  "replica_path this = zookeeper_path this @ [''replicas'', replica_name this]"

subsection \<open>\<^verbatim>\<open>activateReplica\<close>\<close>

text \<open>
  The host and the port come from the context. The result is the error thrown, or the
  storage holding the \<open>is_active\<close> node, and the coordinator after the call.
\<close>

definition activateReplica ::
  "storage \<Rightarrow> string \<Rightarrow> nat \<Rightarrow> coordinator \<Rightarrow> (error + storage) \<times> coordinator" where
  "activateReplica this interserver_io_host interserver_io_port z =
     (let host = ''host: '' @ interserver_io_host @ nl @
                 ''port: '' @ toString interserver_io_port @ nl;
          z1 = (if tryGet z (replica_path this @ [''is_active'']) = Some (active_node_identifier this)
                then snd (tryRemove z (replica_path this @ [''is_active'']))
                else z);
          ops = [Create (replica_path this @ [''is_active'']) '''' Ephemeral,
                 SetData (replica_path this @ [''host'']) host]
      in case multi z1 ops of
           (Inl e, z2) \<Rightarrow>
             (if e = KeeperException ZNODEEXISTS then (Inl REPLICA_IS_ALREADY_ACTIVE, z2)
              else (Inl e, z2))
         | (Inr created, z2) \<Rightarrow>
             (Inr (this\<lparr>replica_is_active_node := Some (replica_path this @ [''is_active''])\<rparr>),
              z2))"

text \<open>
  A table \<open>/t\<close> with the replica \<open>r1\<close>, as \<^verbatim>\<open>createTable\<close> and \<^verbatim>\<open>createReplica\<close>
  leave it, and the storage object of \<open>r1\<close> before \<^verbatim>\<open>startup\<close>.
\<close>

definition persistent_node :: "string \<Rightarrow> int \<Rightarrow> znode" where
  "persistent_node v zx = \<lparr>node_value = v, czxid = zx, ephemeral = False, next_seq = 0\<rparr>"

definition fresh_table :: coordinator where
  "fresh_table =
     \<lparr>nodes =
        [([], persistent_node '''' 0),
         ([''t''], persistent_node '''' 1),
         ([''t'', ''replicas''], persistent_node '''' 2),
         ([''t'', ''block_numbers''], persistent_node '''' 3),
         ([''t'', ''replicas'', ''r1''], persistent_node '''' 4),
         ([''t'', ''replicas'', ''r1'', ''host''], persistent_node '''' 5),
         ([''t'', ''replicas'', ''r1'', ''log''], persistent_node '''' 6),
         ([''t'', ''replicas'', ''r1'', ''log_pointers''], persistent_node '''' 7),
         ([''t'', ''replicas'', ''r1'', ''queue''], persistent_node '''' 8),
         ([''t'', ''replicas'', ''r1'', ''parts''], persistent_node '''' 9)],
      zxid = 9\<rparr>"

definition storage_r1 :: storage where
  "storage_r1 =
     \<lparr>zookeeper_path = [''t''], replica_name = ''r1'', active_node_identifier = ''123456789'',
      is_read_only = False, shutdown_called = False, permanent_shutdown_called = False,
      is_leader_node = False, queue = [], future_parts = [], virtual_parts = [],
      leader_election = False, replica_is_active_node = None, endpoint_holder = True,
      merger_cancelled = False, restarting_thread = True, queue_updating_thread = False,
      merge_selecting_thread = False, clear_old_blocks_thread = False,
      queue_task_handle = False\<rparr>"

subsection \<open>\<^verbatim>\<open>clearOldLogs\<close>\<close>

text \<open>
  The first loop: the least pointer to the log of this replica over all replicas, starting
  from the largest \<^verbatim>\<open>UInt64\<close>. \<open>Inr None\<close> is the \<^verbatim>\<open>return\<close> taken when a replica has
  no pointer.
\<close>

fun min_pointer_loop ::
  "storage \<Rightarrow> coordinator \<Rightarrow> string list \<Rightarrow> UInt64 \<Rightarrow> error + UInt64 option" where
  "min_pointer_loop this z [] min_pointer = Inr (Some min_pointer)"
| "min_pointer_loop this z (replica # replicas) min_pointer =
     (case tryGet z (zookeeper_path this @ [''replicas'', replica, ''log_pointers'', replica_name this]) of
        None \<Rightarrow> Inr None
      | Some pointer \<Rightarrow>
          (case parseUInt64 pointer of
             Inl e \<Rightarrow> Inl e
           | Inr v \<Rightarrow> min_pointer_loop this z replicas (min min_pointer v)))"

text \<open>The second loop, over the sorted entries; it stops at the first index not below the least pointer.\<close>

fun remove_old_entries ::
  "storage \<Rightarrow> coordinator \<Rightarrow> string list \<Rightarrow> UInt64 \<Rightarrow> nat \<Rightarrow> (error + nat) \<times> coordinator" where
  "remove_old_entries this z [] min_pointer removed = (Inr removed, z)"
| "remove_old_entries this z (entry # entries) min_pointer removed =
     (case log_index entry of
        Inl e \<Rightarrow> (Inl e, z)
      | Inr index \<Rightarrow>
          if index \<ge> min_pointer then (Inr removed, z)
          else (case remove z (replica_path this @ [''log'', entry]) of
                  (Inl e, z') \<Rightarrow> (Inl e, z')
                | (Inr done, z') \<Rightarrow> remove_old_entries this z' entries min_pointer (removed + 1)))"

text \<open>The result is the number of entries removed, which the source only logs.\<close>

definition clearOldLogs :: "storage \<Rightarrow> coordinator \<Rightarrow> (error + nat) \<times> coordinator" where
  "clearOldLogs this z =
     (case getChildren z (zookeeper_path this @ [''replicas'']) of
        Inl e \<Rightarrow> (Inl e, z)
      | Inr replicas \<Rightarrow>
          (case min_pointer_loop this z replicas (- 1) of
             Inl e \<Rightarrow> (Inl e, z)
           | Inr None \<Rightarrow> (Inr 0, z)
           | Inr (Some min_pointer) \<Rightarrow>
               (case getChildren z (replica_path this @ [''log'']) of
                  Inl e \<Rightarrow> (Inl e, z)
                | Inr entries \<Rightarrow> remove_old_entries this z (sort entries) min_pointer 0)))"

subsection \<open>\<^verbatim>\<open>pullLogsToQueue\<close>\<close>

text \<open>
  Modelled from the spec: \<^verbatim>\<open>LogEntry::parse\<close> and \<^verbatim>\<open>addResultToVirtualParts\<close> are
  declared in the header, which is not in this file. \<open>parse\<close> decodes a whole text into a
  new entry; a new entry has no parts to merge and no node name. Every entry registers its
  \<open>new_part_name\<close> in the virtual-parts index.
\<close>

definition LogEntry_parse :: "string \<Rightarrow> error + LogEntry" where
  "LogEntry_parse s =
     (case readText \<lparr>znode_name = '''', type = GET_PART, source_replica = '''',
                     new_part_name = '''', parts_to_merge = []\<rparr> s of
        Inl e \<Rightarrow> Inl e
      | Inr (entry, rest) \<Rightarrow>
          if rest = [] then Inr entry else Inl CANNOT_PARSE_INPUT_ASSERTION_FAILED)"

definition addResultToVirtualParts :: "LogEntry \<Rightarrow> storage \<Rightarrow> storage" where
  "addResultToVirtualParts entry this =
     this\<lparr>virtual_parts := virtual_parts this @ [new_part_name entry]\<rparr>"

text \<open>The local struct \<^verbatim>\<open>LogIterator\<close> and its \<^verbatim>\<open>readEntry\<close>.\<close>

record LogIterator =
  replica :: string
  index :: UInt64
  timestamp :: int
  entry_str :: string

definition log_entry_path :: "path \<Rightarrow> string \<Rightarrow> UInt64 \<Rightarrow> path" where
  "log_entry_path zk_path r i =
     zk_path @ [''replicas'', r, ''log'', ''log-'' @ pad10 (toString (unat i))]"

definition readEntry :: "coordinator \<Rightarrow> path \<Rightarrow> LogIterator \<Rightarrow> LogIterator option" where
  "readEntry z zk_path it =
     (case lookup z (log_entry_path zk_path (replica it) (index it)) of
        None \<Rightarrow> None
      | Some n \<Rightarrow> Some (it\<lparr>entry_str := node_value n, timestamp := czxid n\<rparr>))"

text \<open>
  \<^verbatim>\<open>std::priority_queue<LogIterator>\<close> with \<^verbatim>\<open>operator<\<close> reversed on the timestamp:
  \<open>top\<close> is an iterator of least timestamp (here the first such), \<open>pop\<close> removes it.
\<close>

definition pq_top :: "LogIterator list \<Rightarrow> LogIterator" where
  "pq_top pq = arg_min_list timestamp pq"

definition pq_pop :: "LogIterator list \<Rightarrow> LogIterator list" where
  "pq_pop pq = remove1 (pq_top pq) pq"

definition pq_push :: "LogIterator \<Rightarrow> LogIterator list \<Rightarrow> LogIterator list" where
  "pq_push it pq = pq @ [it]"

text \<open>
  The first loop, for one replica: the pointer to its log, read or else set to the first
  entry of the log (the least name), and created.
\<close>

definition first_index :: "storage \<Rightarrow> coordinator \<Rightarrow> string \<Rightarrow> (error + UInt64) \<times> coordinator" where
  "first_index this z r =
     (case tryGet z (replica_path this @ [''log_pointers'', r]) of
        Some index_str \<Rightarrow>
          (case parseUInt64 index_str of Inl e \<Rightarrow> (Inl e, z) | Inr i \<Rightarrow> (Inr i, z))
      | None \<Rightarrow>
          (case getChildren z (zookeeper_path this @ [''replicas'', r, ''log'']) of
             Inl e \<Rightarrow> (Inl e, z)
           | Inr entries \<Rightarrow>
               (case (if sort entries = [] then Inr 0 else log_index (hd (sort entries))) of
                  Inl e \<Rightarrow> (Inl e, z)
                | Inr i \<Rightarrow>
                    (case create z (replica_path this @ [''log_pointers'', r])
                            (toString (unat i)) Persistent of
                       (Inl e, z') \<Rightarrow> (Inl e, z')
                     | (Inr done, z') \<Rightarrow> (Inr i, z')))))"

fun init_iterators ::
  "storage \<Rightarrow> coordinator \<Rightarrow> string list \<Rightarrow> LogIterator list \<Rightarrow>
   (error + LogIterator list) \<times> coordinator" where
  "init_iterators this z [] priority_queue = (Inr priority_queue, z)"
| "init_iterators this z (r # replicas) priority_queue =
     (case first_index this z r of
        (Inl e, z') \<Rightarrow> (Inl e, z')
      | (Inr i, z') \<Rightarrow>
          (case readEntry z' (zookeeper_path this)
                  \<lparr>replica = r, index = i, timestamp = 0, entry_str = ''''\<rparr> of
             None \<Rightarrow> init_iterators this z' replicas priority_queue
           | Some iterator \<Rightarrow> init_iterators this z' replicas (pq_push iterator priority_queue)))"

text \<open>The transaction that moves one log entry to the queue and advances the pointer.\<close>

definition pull_ops :: "storage \<Rightarrow> LogIterator \<Rightarrow> Op list" where
  "pull_ops this iterator =
     [Create (replica_path this @ [''queue'', ''queue-'']) (entry_str iterator) PersistentSequential,
      SetData (replica_path this @ [''log_pointers'', replica iterator])
        (toString (unat (index iterator + 1)))]"

text \<open>
  One turn of the loop \<^verbatim>\<open>while (!priority_queue.empty())\<close>, from \<^verbatim>\<open>LogEntry::parse\<close> to
  \<^verbatim>\<open>queue.push_back\<close>: the entry is parsed, the transaction is committed, and the entry,
  named after the node created, goes to the virtual parts and to the end of the queue.
\<close>

definition pull_entry ::
  "storage \<Rightarrow> coordinator \<Rightarrow> LogIterator \<Rightarrow> (error + storage) \<times> coordinator" where
  "pull_entry this z iterator =
     (case LogEntry_parse (entry_str iterator) of
        Inl e \<Rightarrow> (Inl e, z)
      | Inr entry \<Rightarrow>
          (case multi z (pull_ops this iterator) of
             (Inl e, z1) \<Rightarrow> (Inl e, z1)
           | (Inr created, z1) \<Rightarrow>
               (let entry1 = entry\<lparr>znode_name := last (hd created)\<rparr>;
                    this1 = addResultToVirtualParts entry1 this
                in (Inr (this1\<lparr>queue := queue this1 @ [entry1]\<rparr>), z1))))"

text \<open>
  The loop itself. Nothing in its text bounds the number of turns, so it is a partial
  function and \<open>None\<close> stands for running forever. The result is the counter \<^verbatim>\<open>count\<close>,
  which the source only logs.
\<close>

partial_function (option) drain ::
  "storage \<Rightarrow> coordinator \<Rightarrow> LogIterator list \<Rightarrow> nat \<Rightarrow>
   ((error + nat) \<times> storage \<times> coordinator) option" where
  "drain this z priority_queue count =
     (if priority_queue = [] then Some (Inr count, this, z)
      else
        (let iterator = pq_top priority_queue;
             priority_queue1 = pq_pop priority_queue in
         (case pull_entry this z iterator of
            (Inl e, z1) \<Rightarrow> Some (Inl e, this, z1)
          | (Inr this1, z1) \<Rightarrow>
              (case readEntry z1 (zookeeper_path this) (iterator\<lparr>index := index iterator + 1\<rparr>) of
                 None \<Rightarrow> drain this1 z1 priority_queue1 (count + 1)
               | Some iterator1 \<Rightarrow>
                   drain this1 z1 (pq_push iterator1 priority_queue1) (count + 1)))))"

definition pullLogsToQueue ::
  "storage \<Rightarrow> coordinator \<Rightarrow> ((error + nat) \<times> storage \<times> coordinator) option" where
  "pullLogsToQueue this z =
     (case getChildren z (zookeeper_path this @ [''replicas'']) of
        Inl e \<Rightarrow> Some (Inl e, this, z)
      | Inr replicas \<Rightarrow>
          (case init_iterators this z replicas [] of
             (Inl e, z') \<Rightarrow> Some (Inl e, this, z')
           | (Inr priority_queue, z') \<Rightarrow> drain this z' priority_queue 0))"

text \<open>
  The turns of the loop for a given list of iterators, in their order: the state that the
  storage and the coordinator reach when each of them is committed in turn.
\<close>

fun pull_entries ::
  "storage \<Rightarrow> coordinator \<Rightarrow> LogIterator list \<Rightarrow> (error + storage) \<times> coordinator" where
  "pull_entries this z [] = (Inr this, z)"
| "pull_entries this z (iterator # iterators) =
     (case pull_entry this z iterator of
        (Inl e, z1) \<Rightarrow> (Inl e, z1)
      | (Inr this1, z1) \<Rightarrow> pull_entries this1 z1 iterators)"

subsection \<open>\<^verbatim>\<open>canMergeParts\<close>\<close>

text \<open>The fields of a data part that this file reads.\<close>

record DataPart =
  name :: string
  left :: UInt64
  right :: UInt64
  size_in_marks :: nat
  checksums :: string

datatype State = UNLOCKED | LOCKED | ABANDONED

text \<open>
  The loop \<^verbatim>\<open>for (UInt64 number = left->right + 1; number <= right->left - 1; ++number)\<close>.
  The bounds are computed in \<^verbatim>\<open>UInt64\<close>; when the upper bound is the largest value the
  condition never fails, so the loop is a partial function. \<open>check\<close> is
  \<^verbatim>\<open>AbandonableLockInZooKeeper::check\<close> and \<open>vp_getContainingPart\<close> the lookup of the
  virtual-parts index, which are not in this file and are parameters.
\<close>

definition block_number_path :: "storage \<Rightarrow> string \<Rightarrow> UInt64 \<Rightarrow> path" where
  "block_number_path this month_name number =
     zookeeper_path this @ [''block_numbers'', month_name, ''block-'' @ pad10 (toString (unat number))]"

partial_function (option) all_abandoned ::
  "(coordinator \<Rightarrow> path \<Rightarrow> State) \<Rightarrow> storage \<Rightarrow> coordinator \<Rightarrow> string \<Rightarrow> UInt64 \<Rightarrow> UInt64 \<Rightarrow>
   bool option" where
  "all_abandoned check this z month_name number upper =
     (if number \<le> upper then
        (if check z (block_number_path this month_name number) \<noteq> ABANDONED then Some False
         else all_abandoned check this z month_name (number + 1) upper)
      else Some True)"

definition canMergeParts ::
  "(string list \<Rightarrow> string \<Rightarrow> string) \<Rightarrow> (coordinator \<Rightarrow> path \<Rightarrow> State) \<Rightarrow>
   storage \<Rightarrow> coordinator \<Rightarrow> DataPart \<Rightarrow> DataPart \<Rightarrow> bool option" where
  "canMergeParts vp_getContainingPart check this z left_part right_part =
     (if vp_getContainingPart (virtual_parts this) (name left_part) \<noteq> name left_part \<or>
         vp_getContainingPart (virtual_parts this) (name right_part) \<noteq> name right_part
      then Some False
      else if \<not> exists z (replica_path this @ [''parts'', name left_part]) \<or>
              \<not> exists z (replica_path this @ [''parts'', name right_part])
      then Some False
      else all_abandoned check this z (take 6 (name left_part))
             (right left_part + 1) (left right_part - 1))"

text \<open>
  Sample collaborators for the examples below: a block-number lock is abandoned when its
  node exists and names no holder, and unlocked when there is no node; the virtual-parts
  index of parts none of which covers another.
\<close>

definition sample_check :: "coordinator \<Rightarrow> path \<Rightarrow> State" where
  "sample_check z p =
     (case tryGet z p of None \<Rightarrow> UNLOCKED | Some v \<Rightarrow> if v = [] then ABANDONED else LOCKED)"

definition sample_getContainingPart :: "string list \<Rightarrow> string \<Rightarrow> string" where
  "sample_getContainingPart parts n = (if n \<in> set parts then n else '''')"

definition part_1_5 :: DataPart where
  "part_1_5 = \<lparr>name = ''20140101_20140131_1_5_1'', left = 1, right = 5,
                size_in_marks = 10, checksums = ''c15''\<rparr>"

definition part_7_9 :: DataPart where
  "part_7_9 = \<lparr>name = ''20140101_20140131_7_9_1'', left = 7, right = 9,
                size_in_marks = 10, checksums = ''c79''\<rparr>"

text \<open>Replica \<open>r1\<close> holds both parts; block number 6, between them, is an abandoned lock.\<close>

definition table_two_parts :: coordinator where
  "table_two_parts =
     \<lparr>nodes = nodes fresh_table @
        [([''t'', ''block_numbers'', ''201401''], persistent_node '''' 10),
         ([''t'', ''block_numbers'', ''201401'', ''block-0000000006''], persistent_node '''' 11),
         ([''t'', ''replicas'', ''r1'', ''parts'', ''20140101_20140131_1_5_1''], persistent_node '''' 12),
         ([''t'', ''replicas'', ''r1'', ''parts'', ''20140101_20140131_7_9_1''], persistent_node '''' 13)],
      zxid = 13\<rparr>"

definition storage_two_parts :: storage where
  "storage_two_parts =
     storage_r1\<lparr>virtual_parts := [''20140101_20140131_1_5_1'', ''20140101_20140131_7_9_1'']\<rparr>"

text \<open>
  Two parts given in the other order: the right part starts at block number 0, so that no
  block number lies strictly between the two parts. Replica \<open>r1\<close> holds both.
\<close>

definition part_0_0 :: DataPart where
  "part_0_0 = \<lparr>name = ''20140101_20140131_0_0_0'', left = 0, right = 0,
                size_in_marks = 10, checksums = ''c00''\<rparr>"

definition table_part_zero :: coordinator where
  "table_part_zero =
     \<lparr>nodes = nodes table_two_parts @
        [([''t'', ''replicas'', ''r1'', ''parts'', ''20140101_20140131_0_0_0''], persistent_node '''' 14)],
      zxid = 14\<rparr>"

definition storage_part_zero :: storage where
  "storage_part_zero =
     storage_r1\<lparr>virtual_parts := [''20140101_20140131_1_5_1'', ''20140101_20140131_0_0_0'']\<rparr>"

subsection \<open>The local part store and the peers\<close>

text \<open>
  The local part store, the merger, the fetcher and the checksums are external to this
  file. The functions below take what they read from them as parameters:
  \<open>random_shuffle\<close> is \<^verbatim>\<open>std::random_shuffle\<close> on the replica names;
  \<open>getContainingPart\<close> is \<^verbatim>\<open>data.getContainingPart(name, including_inactive)\<close>;
  \<open>checksums_equal\<close> is \<^verbatim>\<open>Checksums::parse\<close> of a text followed by \<^verbatim>\<open>checkEqual\<close>
  with the checksums of a part; \<open>mergeParts\<close> is \<^verbatim>\<open>merger.mergeParts\<close>;
  \<open>fetcher_fetchPart\<close> is reading the text of the \<open>host\<close> node, \<^verbatim>\<open>fetcher.fetchPart\<close>
  and \<^verbatim>\<open>data.renameTempPartAndReplace\<close>.
\<close>

record collaborators =
  random_shuffle :: "string list \<Rightarrow> string list"
  getContainingPart :: "string \<Rightarrow> bool \<Rightarrow> DataPart option"
  checksums_equal :: "string \<Rightarrow> DataPart \<Rightarrow> bool"
  mergeParts :: "DataPart list \<Rightarrow> string \<Rightarrow> error + DataPart"
  fetcher_fetchPart :: "string \<Rightarrow> path \<Rightarrow> string \<Rightarrow> error + DataPart"

text \<open>\<^verbatim>\<open>findReplicaHavingPart\<close>; the empty name when no replica has the part.\<close>

fun first_replica_having_part :: "coordinator \<Rightarrow> path \<Rightarrow> string \<Rightarrow> bool \<Rightarrow> string list \<Rightarrow> string" where
  "first_replica_having_part z zk_path part_name active [] = ''''"
| "first_replica_having_part z zk_path part_name active (r # replicas) =
     (if exists z (zk_path @ [''replicas'', r, ''parts'', part_name]) \<and>
         (\<not> active \<or> exists z (zk_path @ [''replicas'', r, ''is_active'']))
      then r
      else first_replica_having_part z zk_path part_name active replicas)"

definition findReplicaHavingPart ::
  "collaborators \<Rightarrow> storage \<Rightarrow> coordinator \<Rightarrow> string \<Rightarrow> bool \<Rightarrow> error + string" where
  "findReplicaHavingPart c this z part_name active =
     (case getChildren z (zookeeper_path this @ [''replicas'']) of
        Inl e \<Rightarrow> Inl e
      | Inr replicas \<Rightarrow>
          Inr (first_replica_having_part z (zookeeper_path this) part_name active
                 (random_shuffle c replicas)))"

text \<open>\<^verbatim>\<open>checkPartAndAddToZooKeeper\<close>: the operations \<open>ops\<close> with two creations appended.\<close>

definition checkPartAndAddToZooKeeper ::
  "collaborators \<Rightarrow> storage \<Rightarrow> coordinator \<Rightarrow> DataPart \<Rightarrow> Op list \<Rightarrow> error + Op list" where
  "checkPartAndAddToZooKeeper c this z part ops =
     (case findReplicaHavingPart c this z (name part) False of
        Inl e \<Rightarrow> Inl e
      | Inr another_replica \<Rightarrow>
          if another_replica \<noteq> '''' \<and>
             (case tryGet z (zookeeper_path this @
                     [''replicas'', another_replica, ''parts'', name part, ''checksums'']) of
                None \<Rightarrow> False
              | Some checksums_str \<Rightarrow> \<not> checksums_equal c checksums_str part)
          then Inl CHECKSUM_MISMATCH
          else Inr (ops @
                 [Create (replica_path this @ [''parts'', name part]) '''' Persistent,
                  Create (replica_path this @ [''parts'', name part, ''checksums''])
                    (checksums part) Persistent]))"

text \<open>\<^verbatim>\<open>fetchPart\<close>.\<close>

definition fetchPart ::
  "collaborators \<Rightarrow> storage \<Rightarrow> coordinator \<Rightarrow> string \<Rightarrow> string \<Rightarrow> (error + unit) \<times> coordinator" where
  "fetchPart c this z part_name r =
     (case tryGet z (zookeeper_path this @ [''replicas'', r, ''host'']) of
        None \<Rightarrow> (Inl (KeeperException ZNONODE), z)
      | Some host_port_str \<Rightarrow>
          (case fetcher_fetchPart c part_name (zookeeper_path this @ [''replicas'', r])
                  host_port_str of
             Inl e \<Rightarrow> (Inl e, z)
           | Inr part \<Rightarrow>
               (case checkPartAndAddToZooKeeper c this z part [] of
                  Inl e \<Rightarrow> (Inl e, z)
                | Inr ops \<Rightarrow>
                    (case multi z ops of
                       (Inl e, z') \<Rightarrow> (Inl e, z')
                     | (Inr done, z') \<Rightarrow> (Inr (), z')))))"

subsection \<open>The executor: \<^verbatim>\<open>shouldExecuteLogEntry\<close>, \<^verbatim>\<open>executeLogEntry\<close>, \<^verbatim>\<open>queueTask\<close>\<close>

definition shouldExecuteLogEntry :: "storage \<Rightarrow> LogEntry \<Rightarrow> bool" where
  "shouldExecuteLogEntry this entry =
     (if (type entry = MERGE_PARTS \<or> type entry = GET_PART) \<and>
         new_part_name entry \<in> set (future_parts this)
      then False
      else if type entry = MERGE_PARTS
      then list_all (\<lambda>n. n \<notin> set (future_parts this)) (parts_to_merge entry)
      else True)"

text \<open>
  The loop of \<^verbatim>\<open>executeLogEntry\<close> that looks every part to merge up in the local store:
  \<open>None\<close> is \<^verbatim>\<open>have_all_parts = false\<close>.
\<close>

fun collect_parts :: "collaborators \<Rightarrow> string list \<Rightarrow> DataPart list \<Rightarrow> DataPart list option" where
  "collect_parts c [] parts = Some parts"
| "collect_parts c (n # names) parts =
     (case getContainingPart c n False of
        None \<Rightarrow> None
      | Some part \<Rightarrow>
          if name part \<noteq> n then None else collect_parts c names (parts @ [part]))"

text \<open>
  The handler of a failed fetch. Its first loop finds the first merge entry of the queue
  that takes the part as an input: its position \<^verbatim>\<open>merge_entry\<close> and its inputs
  \<^verbatim>\<open>parts_for_merge\<close>.
\<close>

fun find_merge_entry :: "string \<Rightarrow> LogEntry list \<Rightarrow> nat \<Rightarrow> (nat \<times> string list) option" where
  "find_merge_entry part_name [] i = None"
| "find_merge_entry part_name (e # es) i =
     (if type e = MERGE_PARTS \<and> part_name \<in> set (parts_to_merge e)
      then Some (i, parts_to_merge e)
      else find_merge_entry part_name es (Suc i))"

text \<open>
  Its second loop walks the queue from the front, \<open>n\<close> entries before \<^verbatim>\<open>merge_entry\<close>,
  and splices every entry that produces one of \<^verbatim>\<open>parts_for_merge\<close> to the end of the
  queue; the entries it passes stay in front.
\<close>

fun move_to_end :: "string list \<Rightarrow> nat \<Rightarrow> LogEntry list \<Rightarrow> LogEntry list" where
  "move_to_end parts_for_merge n [] = []"
| "move_to_end parts_for_merge 0 (e # es) = e # es"
| "move_to_end parts_for_merge (Suc n) (e # es) =
     (if (type e = MERGE_PARTS \<or> type e = GET_PART) \<and> new_part_name e \<in> set parts_for_merge
      then move_to_end parts_for_merge n (es @ [e])
      else e # move_to_end parts_for_merge n es)"

definition reorder_after_failed_fetch :: "string \<Rightarrow> LogEntry list \<Rightarrow> LogEntry list" where
  "reorder_after_failed_fetch part_name q =
     (case find_merge_entry part_name q 0 of
        None \<Rightarrow> q
      | Some (merge_entry, parts_for_merge) \<Rightarrow>
          if parts_for_merge \<noteq> [] then move_to_end parts_for_merge merge_entry q else q)"

text \<open>The \<^verbatim>\<open>try\<close> block of the fetch.\<close>

definition try_fetch ::
  "collaborators \<Rightarrow> storage \<Rightarrow> coordinator \<Rightarrow> LogEntry \<Rightarrow> (error + unit) \<times> coordinator" where
  "try_fetch c this z entry =
     (case findReplicaHavingPart c this z (new_part_name entry) True of
        Inl e \<Rightarrow> (Inl e, z)
      | Inr r \<Rightarrow>
          if r = '''' then (Inl NO_REPLICA_HAS_PART, z)
          else fetchPart c this z (new_part_name entry) r)"

text \<open>
  \<^verbatim>\<open>executeLogEntry\<close>. The counters of the background pool, which a big merge raises for
  the time it runs, and the profile events are not part of the state.
\<close>

definition executeLogEntry ::
  "collaborators \<Rightarrow> storage \<Rightarrow> coordinator \<Rightarrow> LogEntry \<Rightarrow> (error + unit) \<times> storage \<times> coordinator" where
  "executeLogEntry c this z entry =
     (if (type entry = GET_PART \<or> type entry = MERGE_PARTS) \<and>
         (case getContainingPart c (new_part_name entry) True of
            None \<Rightarrow> False
          | Some containing_part \<Rightarrow> exists z (replica_path this @ [''parts'', name containing_part]))
      then (Inr (), this, z)
      else
        (let have_parts = (if type entry = MERGE_PARTS
                           then collect_parts c (parts_to_merge entry) [] else None);
             do_fetch = (type entry = GET_PART \<or> have_parts = None) in
         if \<not> do_fetch then
           (case mergeParts c (the have_parts) (new_part_name entry) of
              Inl e \<Rightarrow> (Inl e, this, z)
            | Inr part \<Rightarrow>
                (case checkPartAndAddToZooKeeper c this z part [] of
                   Inl e \<Rightarrow> (Inl e, this, z)
                 | Inr ops \<Rightarrow>
                     (case multi z ops of
                        (Inl e, z') \<Rightarrow> (Inl e, this, z')
                      | (Inr done, z') \<Rightarrow> (Inr (), this, z'))))
         else
           (case try_fetch c this z entry of
              (Inl e, z') \<Rightarrow>
                (Inl e,
                 this\<lparr>queue := reorder_after_failed_fetch (new_part_name entry) (queue this)\<rparr>,
                 z')
            | (Inr done, z') \<Rightarrow> (Inr (), this, z'))))"

text \<open>
  The scan of \<^verbatim>\<open>queueTask\<close> for the first entry to execute: the entry, and the queue
  without it.
\<close>

fun select_entry :: "storage \<Rightarrow> LogEntry list \<Rightarrow> (LogEntry \<times> LogEntry list) option" where
  "select_entry this [] = None"
| "select_entry this (e # es) =
     (if shouldExecuteLogEntry this e then Some (e, es)
      else map_option (\<lambda>(entry, rest). (entry, e # rest)) (select_entry this es))"

text \<open>
  Modelled from the spec: \<^verbatim>\<open>tagPartAsFuture\<close> and the tagger it creates are declared in
  the header. The selected entry is tagged into \<open>future_parts\<close>, a reservation released
  on every exit.
\<close>

definition tagPartAsFuture :: "LogEntry \<Rightarrow> storage \<Rightarrow> storage" where
  "tagPartAsFuture entry this = this\<lparr>future_parts := future_parts this @ [new_part_name entry]\<rparr>"

definition release_tag :: "LogEntry \<Rightarrow> storage \<Rightarrow> storage" where
  "release_tag entry this =
     this\<lparr>future_parts := removeAll (new_part_name entry) (future_parts this)\<rparr>"

text \<open>\<^verbatim>\<open>queueTask\<close>: whether it succeeded, the storage and the coordinator after it.\<close>

definition queueTask ::
  "collaborators \<Rightarrow> storage \<Rightarrow> coordinator \<Rightarrow> bool \<times> storage \<times> coordinator" where
  "queueTask c this z =
     (case select_entry this (queue this) of
        None \<Rightarrow> (False, this, z)
      | Some (entry, rest) \<Rightarrow>
          (case executeLogEntry c (tagPartAsFuture entry (this\<lparr>queue := rest\<rparr>)) z entry of
             (Inr done, this', z') \<Rightarrow>
               (True, release_tag entry this',
                snd (tryRemove z' (replica_path this @ [''queue'', znode_name entry])))
           | (Inl e, this', z') \<Rightarrow>
               (False, (release_tag entry this')\<lparr>queue := queue this' @ [entry]\<rparr>, z')))"

text \<open>
  Scenario S4: the queue \<open>[GET p1, GET p2, MERGE p1+p2\<rightarrow>p3]\<close> on replica \<open>r1\<close>, whose
  entries have the nodes \<open>queue-0000000000\<close> to \<open>queue-0000000002\<close>; no part is held
  locally and no replica has any part.
\<close>

definition S4_get :: "string \<Rightarrow> string \<Rightarrow> LogEntry" where
  "S4_get part_name znode =
     \<lparr>znode_name = znode, type = GET_PART, source_replica = ''r1'',
      new_part_name = part_name, parts_to_merge = []\<rparr>"

definition S4_queue :: "LogEntry list" where
  "S4_queue =
     [S4_get ''p1'' ''queue-0000000000'', S4_get ''p2'' ''queue-0000000001'',
      S4_merge\<lparr>znode_name := ''queue-0000000002''\<rparr>]"

definition S4_storage :: storage where
  "S4_storage = storage_r1\<lparr>queue := S4_queue\<rparr>"

definition S4_table :: coordinator where
  "S4_table =
     \<lparr>nodes = nodes fresh_table @
        [([''t'', ''replicas'', ''r1'', ''queue'', ''queue-0000000000''],
            persistent_node (writeText (S4_get ''p1'' '''') []) 10),
         ([''t'', ''replicas'', ''r1'', ''queue'', ''queue-0000000001''],
            persistent_node (writeText (S4_get ''p2'' '''') []) 11),
         ([''t'', ''replicas'', ''r1'', ''queue'', ''queue-0000000002''],
            persistent_node (writeText S4_merge []) 12)],
      zxid = 12\<rparr>"

definition no_parts_anywhere :: collaborators where
  "no_parts_anywhere =
     \<lparr>random_shuffle = (\<lambda>replicas. replicas),
      getContainingPart = (\<lambda>n including_inactive. None),
      checksums_equal = (\<lambda>checksums_str part. True),
      mergeParts = (\<lambda>parts n. Inl MERGE_FAILED),
      fetcher_fetchPart = (\<lambda>part_name replica_path host. Inl FETCH_FAILED)\<rparr>"

subsection \<open>Reconciliation: \<^verbatim>\<open>checkParts\<close>\<close>

text \<open>
  \<open>LogEntry::toString\<close>, declared in the header, is \<^verbatim>\<open>writeText\<close> into an empty buffer.
\<close>

definition LogEntry_toString :: "LogEntry \<Rightarrow> string" where
  "LogEntry_toString entry = writeText entry []"

text \<open>
  The first loop, over the local parts: a part expected by the coordinator is struck off
  \<^verbatim>\<open>expected_parts\<close>, another one joins \<^verbatim>\<open>unexpected_parts\<close>. The sets are lists
  without repetition, in the order in which the code iterates them: \<open>parts\<close> is the
  set \<^verbatim>\<open>data.getAllDataParts()\<close> in its own order, which \<^verbatim>\<open>unexpected_parts\<close>, a set
  of the same type, keeps; a \<^verbatim>\<open>NameSet\<close> is in the order of the names.
\<close>

fun classify_local :: "DataPart list \<Rightarrow> string list \<Rightarrow> DataPart list \<Rightarrow> string list \<times> DataPart list" where
  "classify_local [] expected_parts unexpected_parts = (expected_parts, unexpected_parts)"
| "classify_local (part # parts) expected_parts unexpected_parts =
     (if name part \<in> set expected_parts
      then classify_local parts (removeAll (name part) expected_parts) unexpected_parts
      else classify_local parts expected_parts
             (if part \<in> set unexpected_parts then unexpected_parts
              else unexpected_parts @ [part]))"

text \<open>
  The second loop, over the expected parts that are missing locally: a missing part is
  either covered by a local part, which is added to \<^verbatim>\<open>parts_to_add\<close> when it was
  unexpected, or it is to fetch.
\<close>

fun classify_missing ::
  "collaborators \<Rightarrow> string list \<Rightarrow> DataPart list \<Rightarrow> DataPart list \<Rightarrow> string list \<Rightarrow>
   DataPart list \<times> DataPart list \<times> string list" where
  "classify_missing c [] parts_to_add unexpected_parts parts_to_fetch =
     (parts_to_add, unexpected_parts, parts_to_fetch)"
| "classify_missing c (missing_name # missing) parts_to_add unexpected_parts parts_to_fetch =
     (case getContainingPart c missing_name False of
        Some containing \<Rightarrow>
          if containing \<in> set unexpected_parts
          then classify_missing c missing (parts_to_add @ [containing])
                 (removeAll containing unexpected_parts) parts_to_fetch
          else classify_missing c missing parts_to_add unexpected_parts parts_to_fetch
      | None \<Rightarrow>
          classify_missing c missing parts_to_add unexpected_parts
            (parts_to_fetch @ [missing_name]))"

text \<open>
  The four sets the sanity check counts, from the children of \<open>parts\<close> and the local
  parts: \<^verbatim>\<open>parts_to_add\<close>, \<^verbatim>\<open>unexpected_parts\<close>, what is left of \<^verbatim>\<open>expected_parts\<close>
  (the obsolete parts) and \<^verbatim>\<open>parts_to_fetch\<close>.
\<close>

definition reconcile ::
  "collaborators \<Rightarrow> DataPart list \<Rightarrow> string list \<Rightarrow>
   DataPart list \<times> DataPart list \<times> string list \<times> string list" where
  "reconcile c parts expected_parts_vec =
     (case classify_local parts (sort (remdups expected_parts_vec)) [] of
        (expected_parts, unexpected_parts0) \<Rightarrow>
          (case classify_missing c expected_parts [] unexpected_parts0 [] of
             (parts_to_add, unexpected_parts, parts_to_fetch) \<Rightarrow>
               (parts_to_add, unexpected_parts,
                filter (\<lambda>n. n \<notin> set parts_to_fetch) expected_parts, parts_to_fetch)))"

definition insane :: "DataPart list \<times> DataPart list \<times> string list \<times> string list \<Rightarrow> bool" where
  "insane sets =
     (case sets of (parts_to_add, unexpected_parts, expected_parts, parts_to_fetch) \<Rightarrow>
        length parts_to_add > 2 \<or> length unexpected_parts > 2 \<or>
        length expected_parts > 20 \<or> length parts_to_fetch > 2)"

text \<open>The three loops that apply the changes to the coordinator.\<close>

fun add_parts ::
  "collaborators \<Rightarrow> storage \<Rightarrow> coordinator \<Rightarrow> DataPart list \<Rightarrow> (error + unit) \<times> coordinator" where
  "add_parts c this z [] = (Inr (), z)"
| "add_parts c this z (part # parts) =
     (case checkPartAndAddToZooKeeper c this z part [] of
        Inl e \<Rightarrow> (Inl e, z)
      | Inr ops \<Rightarrow>
          (case multi z ops of
             (Inl e, z') \<Rightarrow> (Inl e, z')
           | (Inr done, z') \<Rightarrow> add_parts c this z' parts))"

fun remove_obsolete :: "storage \<Rightarrow> coordinator \<Rightarrow> string list \<Rightarrow> (error + unit) \<times> coordinator" where
  "remove_obsolete this z [] = (Inr (), z)"
| "remove_obsolete this z (n # names) =
     (case multi z [Remove (replica_path this @ [''parts'', n, ''checksums'']),
                    Remove (replica_path this @ [''parts'', n])] of
        (Inl e, z') \<Rightarrow> (Inl e, z')
      | (Inr done, z') \<Rightarrow> remove_obsolete this z' names)"

fun queue_fetches :: "storage \<Rightarrow> coordinator \<Rightarrow> string list \<Rightarrow> (error + unit) \<times> coordinator" where
  "queue_fetches this z [] = (Inr (), z)"
| "queue_fetches this z (n # names) =
     (case multi z [Remove (replica_path this @ [''parts'', n, ''checksums'']),
                    Remove (replica_path this @ [''parts'', n]),
                    Create (replica_path this @ [''queue'', ''queue-''])
                      (LogEntry_toString \<lparr>znode_name = '''', type = GET_PART, source_replica = '''',
                                          new_part_name = n, parts_to_merge = []\<rparr>)
                      PersistentSequential] of
        (Inl e, z') \<Rightarrow> (Inl e, z')
      | (Inr done, z') \<Rightarrow> queue_fetches this z' names)"

definition apply_changes ::
  "collaborators \<Rightarrow> storage \<Rightarrow> coordinator \<Rightarrow>
   DataPart list \<times> DataPart list \<times> string list \<times> string list \<Rightarrow>
   (error + DataPart list) \<times> coordinator" where
  "apply_changes c this z sets =
     (case sets of (parts_to_add, unexpected_parts, expected_parts, parts_to_fetch) \<Rightarrow>
        (case add_parts c this z parts_to_add of
           (Inl e, z1) \<Rightarrow> (Inl e, z1)
         | (Inr done1, z1) \<Rightarrow>
             (case remove_obsolete this z1 expected_parts of
                (Inl e, z2) \<Rightarrow> (Inl e, z2)
              | (Inr done2, z2) \<Rightarrow>
                  (case queue_fetches this z2 parts_to_fetch of
                     (Inl e, z3) \<Rightarrow> (Inl e, z3)
                   | (Inr done3, z3) \<Rightarrow> (Inr unexpected_parts, z3)))))"

text \<open>
  \<^verbatim>\<open>checkParts\<close>, given the local parts \<^verbatim>\<open>data.getAllDataParts()\<close>. It returns the error
  thrown, or the unexpected parts it has renamed aside with the prefix \<open>ignored_\<close>.
\<close>

definition force_restore_data :: "storage \<Rightarrow> path" where
  "force_restore_data this = replica_path this @ [''flags'', ''force_restore_data'']"

definition checkParts ::
  "collaborators \<Rightarrow> storage \<Rightarrow> DataPart list \<Rightarrow> coordinator \<Rightarrow>
   (error + DataPart list) \<times> coordinator" where
  "checkParts c this parts z =
     (case getChildren z (replica_path this @ [''parts'']) of
        Inl e \<Rightarrow> (Inl e, z)
      | Inr expected_parts_vec \<Rightarrow>
          (let sets = reconcile c parts expected_parts_vec in
           (case (if exists z (force_restore_data this)
                  then (case remove z (force_restore_data this) of
                          (Inl e, z') \<Rightarrow> (Inl e, z')
                        | (Inr done, z') \<Rightarrow> (Inr True, z'))
                  else (Inr False, z)) of
              (Inl e, z1) \<Rightarrow> (Inl e, z1)
            | (Inr skip_sanity_check, z1) \<Rightarrow>
                if \<not> skip_sanity_check \<and> insane sets
                then (Inl TOO_MANY_UNEXPECTED_DATA_PARTS, z1)
                else apply_changes c this z1 sets)))"

text \<open>
  Replica \<open>r1\<close> restarts with no local part, while the coordinator expects three parts:
  three parts to fetch, one more than the check allows; and the same with the sentinel
  set.
\<close>

definition table_three_parts :: coordinator where
  "table_three_parts =
     \<lparr>nodes = nodes fresh_table @
        [([''t'', ''replicas'', ''r1'', ''parts'', ''p1''], persistent_node '''' 10),
         ([''t'', ''replicas'', ''r1'', ''parts'', ''p1'', ''checksums''], persistent_node ''c1'' 10),
         ([''t'', ''replicas'', ''r1'', ''parts'', ''p2''], persistent_node '''' 11),
         ([''t'', ''replicas'', ''r1'', ''parts'', ''p2'', ''checksums''], persistent_node ''c2'' 11),
         ([''t'', ''replicas'', ''r1'', ''parts'', ''p3''], persistent_node '''' 12),
         ([''t'', ''replicas'', ''r1'', ''parts'', ''p3'', ''checksums''], persistent_node ''c3'' 12)],
      zxid = 12\<rparr>"

definition table_three_parts_forced :: coordinator where
  "table_three_parts_forced =
     \<lparr>nodes = nodes table_three_parts @
        [([''t'', ''replicas'', ''r1'', ''flags''], persistent_node '''' 13),
         ([''t'', ''replicas'', ''r1'', ''flags'', ''force_restore_data''], persistent_node '''' 14)],
      zxid = 14\<rparr>"

subsection \<open>The merge-selection loop of the leader\<close>

text \<open>
  What one turn of the loop of \<^verbatim>\<open>mergeSelectingThread\<close> reads from outside this file:
  the counter \<open>replicated big merges\<close> of the background pool, two settings, the merge
  planner \<^verbatim>\<open>merger.selectPartsToMerge\<close> (given \<^verbatim>\<open>merge_anything_for_old_months\<close>,
  \<^verbatim>\<open>aggressive\<close>, \<^verbatim>\<open>only_small\<close> and the predicate \<^verbatim>\<open>can_merge\<close>; it returns the parts
  and the name of the merged part when it selects a merge), and the two collaborators of
  \<^verbatim>\<open>canMergeParts\<close>.
\<close>

record selecting =
  replicated_big_merges :: nat
  index_granularity :: nat
  max_replicated_merges_in_queue :: nat
  selectPartsToMerge ::
    "bool \<Rightarrow> bool \<Rightarrow> bool \<Rightarrow> (DataPart \<Rightarrow> DataPart \<Rightarrow> bool) \<Rightarrow> (DataPart list \<times> string) option"
  virtual_parts_getContainingPart :: "string list \<Rightarrow> string \<Rightarrow> string"
  lock_check :: "coordinator \<Rightarrow> path \<Rightarrow> State"

definition big_part :: "nat \<Rightarrow> DataPart \<Rightarrow> bool" where
  "big_part granularity part = (size_in_marks part * granularity > 25 * 1024 * 1024)"

text \<open>The inner loop over the inputs of a queued merge: is one of them, held locally, big?\<close>

definition has_big_input :: "collaborators \<Rightarrow> nat \<Rightarrow> LogEntry \<Rightarrow> bool" where
  "has_big_input c granularity entry =
     list_ex (\<lambda>n. case getContainingPart c n False of
                     None \<Rightarrow> False
                   | Some part \<Rightarrow> name part = n \<and> big_part granularity part)
       (parts_to_merge entry)"

text \<open>The loop over the queue: \<^verbatim>\<open>merges_queued\<close> and \<^verbatim>\<open>has_big_merge\<close>.\<close>

fun count_merges :: "collaborators \<Rightarrow> nat \<Rightarrow> LogEntry list \<Rightarrow> nat \<Rightarrow> bool \<Rightarrow> nat \<times> bool" where
  "count_merges c granularity [] merges_queued has_big_merge = (merges_queued, has_big_merge)"
| "count_merges c granularity (entry # entries) merges_queued has_big_merge =
     (if type entry = MERGE_PARTS
      then count_merges c granularity entries (merges_queued + 1)
             (if \<not> has_big_merge then has_big_input c granularity entry else has_big_merge)
      else count_merges c granularity entries merges_queued has_big_merge)"

text \<open>
  The loops that remove the block-number nodes between the parts selected; the inner one
  counts in \<^verbatim>\<open>UInt64\<close> like the loop of \<^verbatim>\<open>canMergeParts\<close>.
\<close>

partial_function (option) remove_block_numbers ::
  "storage \<Rightarrow> coordinator \<Rightarrow> string \<Rightarrow> UInt64 \<Rightarrow> UInt64 \<Rightarrow> coordinator option" where
  "remove_block_numbers this z month_name number upper =
     (if number \<le> upper
      then remove_block_numbers this
             (snd (tryRemove z (block_number_path this month_name number)))
             month_name (number + 1) upper
      else Some z)"

fun remove_between_parts :: "storage \<Rightarrow> coordinator \<Rightarrow> string \<Rightarrow> DataPart list \<Rightarrow> coordinator option" where
  "remove_between_parts this z month_name (part # next_part # parts) =
     (case remove_block_numbers this z month_name (right part + 1) (left next_part - 1) of
        None \<Rightarrow> None
      | Some z' \<Rightarrow> remove_between_parts this z' month_name (next_part # parts))"
| "remove_between_parts this z month_name parts = Some z"

text \<open>
  One turn of the loop (the body of the \<^verbatim>\<open>try\<close>): the value of \<^verbatim>\<open>success\<close>, and the
  storage and the coordinator after it. An exception is caught and logged, and leaves
  \<^verbatim>\<open>success\<close> false. The planner returns at least two parts when it selects a merge,
  so \<^verbatim>\<open>parts[0]\<close> is the head of the list.
\<close>

definition merge_selecting_turn ::
  "selecting \<Rightarrow> collaborators \<Rightarrow> storage \<Rightarrow> coordinator \<Rightarrow> (bool \<times> storage \<times> coordinator) option" where
  "merge_selecting_turn s c this z =
     (let has_big_merge0 = (replicated_big_merges s > 0);
          counted = (if \<not> has_big_merge0
                     then count_merges c (index_granularity s) (queue this) 0 has_big_merge0
                     else (0, has_big_merge0));
          merges_queued = fst counted;
          has_big_merge = snd counted;
          can_merge = (\<lambda>l r. canMergeParts (virtual_parts_getContainingPart s) (lock_check s)
                                this z l r = Some True)
      in if merges_queued \<ge> max_replicated_merges_in_queue s then Some (False, this, z)
         else
           (case (case selectPartsToMerge s False False has_big_merge can_merge of
                    Some selected \<Rightarrow> Some selected
                  | None \<Rightarrow> selectPartsToMerge s True False has_big_merge can_merge) of
              None \<Rightarrow> Some (False, this, z)
            | Some (parts, merged_name) \<Rightarrow>
                (case create z (replica_path this @ [''log'', ''log-''])
                        (LogEntry_toString
                           \<lparr>znode_name = '''', type = MERGE_PARTS,
                            source_replica = replica_name this, new_part_name = merged_name,
                            parts_to_merge = map name parts\<rparr>)
                        PersistentSequential of
                   (Inl e, z1) \<Rightarrow> Some (False, this, z1)
                 | (Inr done, z1) \<Rightarrow>
                     (case pullLogsToQueue this z1 of
                        None \<Rightarrow> None
                      | Some (Inl e, this2, z2) \<Rightarrow> Some (False, this2, z2)
                      | Some (Inr count, this2, z2) \<Rightarrow>
                          (case remove_between_parts this2 z2 (take 6 (name (hd parts))) parts of
                             None \<Rightarrow> None
                           | Some z3 \<Rightarrow> Some (True, this2, z3))))))"

text \<open>
  The leader \<open>r1\<close> holds the parts \<open>1_5\<close> and \<open>7_9\<close> and has one merge in its queue,
  \<open>max_replicated_merges_in_queue\<close> is 1, a big merge runs in the background pool, and the
  planner selects the two parts.
\<close>

definition busy_leader :: selecting where
  "busy_leader =
     \<lparr>replicated_big_merges = 1, index_granularity = 8192, max_replicated_merges_in_queue = 1,
      selectPartsToMerge = (\<lambda>merge_anything_for_old_months aggressive only_small can_merge.
         if can_merge part_1_5 part_7_9
         then Some ([part_1_5, part_7_9], ''20140101_20140131_1_9_2'') else None),
      virtual_parts_getContainingPart = sample_getContainingPart,
      lock_check = sample_check\<rparr>"

definition idle_leader :: selecting where
  "idle_leader = busy_leader\<lparr>replicated_big_merges := 0\<rparr>"

definition storage_one_merge :: storage where
  "storage_one_merge =
     storage_two_parts\<lparr>is_leader_node := True,
       queue := [S4_merge\<lparr>znode_name := ''queue-0000000002''\<rparr>]\<rparr>"

definition local_two_parts :: collaborators where
  "local_two_parts =
     no_parts_anywhere\<lparr>getContainingPart := (\<lambda>n including_inactive.
        if n = name part_1_5 then Some part_1_5
        else if n = name part_7_9 then Some part_7_9 else None)\<rparr>"

subsection \<open>Construction, read-only mode and the public surface\<close>

text \<open>
  \<^verbatim>\<open>partialShutdown\<close> and \<^verbatim>\<open>goReadOnly\<close>. Dropping the holder of \<open>is_active\<close> removes the
  node it holds, when there is a coordinator.
\<close>

definition release_is_active :: "storage \<Rightarrow> coordinator option \<Rightarrow> coordinator option" where
  "release_is_active this zookeeper =
     (case (replica_is_active_node this, zookeeper) of
        (Some p, Some z) \<Rightarrow> Some (snd (tryRemove z p))
      | other \<Rightarrow> zookeeper)"

definition join_threads :: "storage \<Rightarrow> storage" where
  "join_threads this =
     (let this1 = (if is_leader_node this
                   then this\<lparr>is_leader_node := False, merge_selecting_thread := False,
                              clear_old_blocks_thread := False\<rparr>
                   else this)
      in this1\<lparr>queue_updating_thread := False, queue_task_handle := False\<rparr>)"

definition partialShutdown :: "storage \<Rightarrow> coordinator option \<Rightarrow> storage \<times> coordinator option" where
  "partialShutdown this zookeeper =
     (join_threads (this\<lparr>leader_election := False, shutdown_called := True,
                         replica_is_active_node := None, merger_cancelled := True\<rparr>),
      release_is_active this zookeeper)"

definition goReadOnly :: "storage \<Rightarrow> coordinator option \<Rightarrow> storage \<times> coordinator option" where
  "goReadOnly this zookeeper =
     (join_threads (this\<lparr>is_read_only := True, shutdown_called := True,
                         permanent_shutdown_called := True, leader_election := False,
                         replica_is_active_node := None, merger_cancelled := True,
                         endpoint_holder := False\<rparr>),
      release_is_active this zookeeper)"

text \<open>
  The storage object when the body of the constructor starts: the paths are set, nothing
  runs, no flag is raised. (The initial values of the flags are in the header; the
  destructor and \<^verbatim>\<open>create\<close> read them, so they are false.)
\<close>

definition new_storage :: "path \<Rightarrow> string \<Rightarrow> storage" where
  "new_storage zookeeper_path' replica_name' =
     \<lparr>zookeeper_path = zookeeper_path', replica_name = replica_name',
      active_node_identifier = '''',
      is_read_only = False, shutdown_called = False, permanent_shutdown_called = False,
      is_leader_node = False, queue = [], future_parts = [], virtual_parts = [],
      leader_election = False, replica_is_active_node = None, endpoint_holder = False,
      merger_cancelled = False, restarting_thread = False, queue_updating_thread = False,
      merge_selecting_thread = False, clear_old_blocks_thread = False,
      queue_task_handle = False\<rparr>"

text \<open>
  The constructor. \<open>zookeeper\<close> is \<^verbatim>\<open>context.getZooKeeper()\<close>, \<open>None\<close> for a null handle.
  With a coordinator, \<open>initialise\<close> stands for the registration or the reconciliation and
  the loading of the queue (\<^verbatim>\<open>createTable\<close>, \<^verbatim>\<open>checkTableStructure\<close>,
  \<^verbatim>\<open>createReplica\<close> or \<^verbatim>\<open>checkParts\<close>, \<^verbatim>\<open>initVirtualParts\<close>, \<^verbatim>\<open>loadQueue\<close>), and
  \<open>clock\<close> for the nanoseconds read from the clock, \<open>None\<close> when \<^verbatim>\<open>clock_gettime\<close> fails;
  then the restarting thread is started.
\<close>

datatype construct_error = Thrown error | CANNOT_CLOCK_GETTIME

definition StorageReplicatedMergeTree ::
  "(bool \<Rightarrow> storage \<Rightarrow> coordinator \<Rightarrow> (error + storage) \<times> coordinator) \<Rightarrow> nat option \<Rightarrow>
   path \<Rightarrow> string \<Rightarrow> bool \<Rightarrow> coordinator option \<Rightarrow>
   (construct_error + storage) \<times> coordinator option" where
  "StorageReplicatedMergeTree initialise clock zookeeper_path' replica_name' attach zookeeper =
     (let this = new_storage zookeeper_path' replica_name' in
      case zookeeper of
        None \<Rightarrow> (case goReadOnly this zookeeper of (this', zookeeper') \<Rightarrow> (Inr this', zookeeper'))
      | Some z \<Rightarrow>
          (case initialise attach this z of
             (Inl e, z') \<Rightarrow> (Inl (Thrown e), Some z')
           | (Inr this1, z') \<Rightarrow>
               (case clock of
                  None \<Rightarrow> (Inl CANNOT_CLOCK_GETTIME, Some z')
                | Some tv_nsec \<Rightarrow>
                    (Inr (this1\<lparr>active_node_identifier := toString tv_nsec,
                                restarting_thread := True\<rparr>),
                     Some z'))))"

text \<open>\<^verbatim>\<open>StorageReplicatedMergeTree::create\<close>: the constructor, then the fetch-server endpoint.\<close>

definition StorageReplicatedMergeTree_create ::
  "(bool \<Rightarrow> storage \<Rightarrow> coordinator \<Rightarrow> (error + storage) \<times> coordinator) \<Rightarrow> nat option \<Rightarrow>
   path \<Rightarrow> string \<Rightarrow> bool \<Rightarrow> coordinator option \<Rightarrow>
   (construct_error + storage) \<times> coordinator option" where
  "StorageReplicatedMergeTree_create initialise clock zookeeper_path' replica_name' attach zookeeper =
     (case StorageReplicatedMergeTree initialise clock zookeeper_path' replica_name' attach
             zookeeper of
        (Inl e, zookeeper') \<Rightarrow> (Inl e, zookeeper')
      | (Inr res, zookeeper') \<Rightarrow>
          (Inr (if \<not> is_read_only res then res\<lparr>endpoint_holder := True\<rparr> else res), zookeeper'))"

text \<open>
  \<^verbatim>\<open>write\<close>, here \<open>write_query\<close>: the query gives the \<open>insert_id\<close> when it is an insert query; the output stream
  returned is identified by the \<open>insert_id\<close> it is built with. \<^verbatim>\<open>read\<close>: the streams of
  the reader, behind those of the unreplicated reader when there is one.
\<close>

definition write_query :: "storage \<Rightarrow> string option \<Rightarrow> error + string" where
  "write_query this query =
     (if is_read_only this then Inl TABLE_IS_READ_ONLY
      else Inr (case query of None \<Rightarrow> '''' | Some insert_id \<Rightarrow> insert_id))"

definition read :: "storage \<Rightarrow> 'stream list \<Rightarrow> 'stream list option \<Rightarrow> 'stream list" where
  "read this res unreplicated =
     (case unreplicated of None \<Rightarrow> res | Some res2 \<Rightarrow> res2 @ res)"

text \<open>
  \<^verbatim>\<open>shutdown\<close>. Joining the restarting thread lets it run to its end, where it drops the
  endpoint and calls \<^verbatim>\<open>partialShutdown\<close>.
\<close>

definition shutdown :: "storage \<Rightarrow> coordinator option \<Rightarrow> storage \<times> coordinator option" where
  "shutdown this zookeeper =
     (if permanent_shutdown_called this \<and> \<not> restarting_thread this then (this, zookeeper)
      else
        (case partialShutdown
                (this\<lparr>permanent_shutdown_called := True, endpoint_holder := False\<rparr>) zookeeper of
           (this', zookeeper') \<Rightarrow> (this'\<lparr>restarting_thread := False\<rparr>, zookeeper')))"

text \<open>The calls a client can make on a storage, and the storage after a sequence of them.\<close>

datatype call = Write "string option" | Read | Shutdown

fun after_call :: "storage \<times> coordinator option \<Rightarrow> call \<Rightarrow> storage \<times> coordinator option" where
  "after_call (this, zookeeper) (Write query) = (this, zookeeper)"
| "after_call (this, zookeeper) Read = (this, zookeeper)"
| "after_call (this, zookeeper) Shutdown = shutdown this zookeeper"

definition after_calls :: "storage \<times> coordinator option \<Rightarrow> call list \<Rightarrow> storage \<times> coordinator option" where
  "after_calls s calls = foldl after_call s calls"

subsection \<open>Well-formed coordinator states\<close>

text \<open>
  The name of a sequential node: the stem given to \<^verbatim>\<open>create\<close>, then exactly ten decimal
  digits.
\<close>

definition sequential_name :: "string \<Rightarrow> string \<Rightarrow> bool" where
  "sequential_name stem e =
     (take (length stem) e = stem \<and> length e = length stem + 10 \<and>
      list_all is_digit (drop (length stem) e))"

text \<open>The number that a node holds as its value, when it holds one.\<close>

definition pointer_value :: "coordinator \<Rightarrow> path \<Rightarrow> UInt64 option" where
  "pointer_value z p =
     (case tryGet z p of
        None \<Rightarrow> None
      | Some s \<Rightarrow> (case parseUInt64 s of Inl e \<Rightarrow> None | Inr v \<Rightarrow> Some v))"

text \<open>
  The log of a replica is well formed when its entries have sequential names and no
  children. Paths are unique in the coordinator.
\<close>

definition log_well_formed :: "coordinator \<Rightarrow> path \<Rightarrow> bool" where
  "log_well_formed z log_path =
     list_all (\<lambda>e. sequential_name ''log-'' e \<and> children z (log_path @ [e]) = [])
       (children z log_path)"

definition unique_paths :: "coordinator \<Rightarrow> bool" where
  "unique_paths z = distinct (map fst (nodes z))"

text \<open>
  Three replicas; the log of \<open>r1\<close> holds the entries 3, 4 and 5, and the replicas have read
  it up to 4, 5 and 4. In the second table \<open>r3\<close> has no pointer to the log of \<open>r1\<close> yet.
\<close>

definition table_three_replicas :: coordinator where
  "table_three_replicas =
     \<lparr>nodes =
        [([], persistent_node '''' 0),
         ([''t''], persistent_node '''' 1),
         ([''t'', ''replicas''], persistent_node '''' 2),
         ([''t'', ''replicas'', ''r1''], persistent_node '''' 3),
         ([''t'', ''replicas'', ''r1'', ''log''], (persistent_node '''' 4)\<lparr>next_seq := 6\<rparr>),
         ([''t'', ''replicas'', ''r1'', ''log_pointers''], persistent_node '''' 5),
         ([''t'', ''replicas'', ''r2''], persistent_node '''' 6),
         ([''t'', ''replicas'', ''r2'', ''log_pointers''], persistent_node '''' 7),
         ([''t'', ''replicas'', ''r3''], persistent_node '''' 8),
         ([''t'', ''replicas'', ''r3'', ''log_pointers''], persistent_node '''' 9),
         ([''t'', ''replicas'', ''r1'', ''log'', ''log-0000000005''], persistent_node ''e5'' 30),
         ([''t'', ''replicas'', ''r1'', ''log'', ''log-0000000003''], persistent_node ''e3'' 10),
         ([''t'', ''replicas'', ''r1'', ''log'', ''log-0000000004''], persistent_node ''e4'' 20),
         ([''t'', ''replicas'', ''r1'', ''log_pointers'', ''r1''], persistent_node ''4'' 11),
         ([''t'', ''replicas'', ''r2'', ''log_pointers'', ''r1''], persistent_node ''5'' 31),
         ([''t'', ''replicas'', ''r3'', ''log_pointers'', ''r1''], persistent_node ''4'' 21)],
      zxid = 31\<rparr>"

definition table_new_replica :: coordinator where
  "table_new_replica =
     table_three_replicas\<lparr>nodes :=
       AList.delete [''t'', ''replicas'', ''r3'', ''log_pointers'', ''r1'']
         (nodes table_three_replicas)\<rparr>"

text \<open>
  The replica and the name of a log entry, for a path of the form
  \<open>zk_path @ [''replicas'', r, ''log'', e]\<close>.
\<close>

definition log_entry_of :: "path \<Rightarrow> path \<Rightarrow> (string \<times> string) option" where
  "log_entry_of zk_path p =
     (if length p = length zk_path + 4 \<and> take (length zk_path) p = zk_path \<and>
         p ! length zk_path = ''replicas'' \<and> p ! (length zk_path + 2) = ''log''
      then Some (p ! (length zk_path + 1), p ! (length zk_path + 3)) else None)"

text \<open>
  The logs of a table are well formed when every entry of every log has a sequential name,
  and the entries of one log were created in the order of their names, as the coordinator
  numbers sequential nodes.
\<close>

definition log_names_sequential :: "coordinator \<Rightarrow> path \<Rightarrow> bool" where
  "log_names_sequential z zk_path =
     list_all (\<lambda>(p, n). case log_entry_of zk_path p of
                 None \<Rightarrow> True
               | Some (r, e) \<Rightarrow> sequential_name ''log-'' e)
       (nodes z)"

definition logs_in_creation_order :: "coordinator \<Rightarrow> path \<Rightarrow> bool" where
  "logs_in_creation_order z zk_path =
     list_all (\<lambda>(p, n). list_all (\<lambda>(p', n').
         case log_entry_of zk_path p of
           None \<Rightarrow> True
         | Some (r, e) \<Rightarrow>
             (case log_entry_of zk_path p' of
                None \<Rightarrow> True
              | Some (r', e') \<Rightarrow> r = r' \<and> e \<le> e' \<longrightarrow> czxid n \<le> czxid n'))
       (nodes z)) (nodes z)"

definition logs_well_formed :: "coordinator \<Rightarrow> path \<Rightarrow> bool" where
  "logs_well_formed z zk_path = (log_names_sequential z zk_path \<and> logs_in_creation_order z zk_path)"

text \<open>
  In the words of the specification: the smallest index of an entry in the log of the
  replica \<open>p\<close>, or 0 when the log is empty.
\<close>

definition smallest_log_index :: "coordinator \<Rightarrow> path \<Rightarrow> string \<Rightarrow> UInt64" where
  "smallest_log_index z zk_path p =
     (let indices = map (\<lambda>e. case log_index e of Inl err \<Rightarrow> 0 | Inr i \<Rightarrow> i)
                      (children z (zk_path @ [''replicas'', p, ''log'']))
      in if indices = [] then 0 else Min (set indices))"

text \<open>The coordinator after the first loop of \<^verbatim>\<open>pullLogsToQueue\<close>, where the second loop starts.\<close>

definition after_first_loop :: "storage \<Rightarrow> coordinator \<Rightarrow> coordinator" where
  "after_first_loop this z =
     (case getChildren z (zookeeper_path this @ [''replicas'']) of
        Inl e \<Rightarrow> z
      | Inr replicas \<Rightarrow> snd (init_iterators this z replicas []))"

text \<open>The queue entry that comes from an iterator: the parsed text, under some node name.\<close>

definition entry_of :: "LogIterator \<Rightarrow> LogEntry \<Rightarrow> bool" where
  "entry_of iterator entry =
     (case LogEntry_parse (entry_str iterator) of
        Inl e \<Rightarrow> False
      | Inr parsed \<Rightarrow> entry = parsed\<lparr>znode_name := znode_name entry\<rparr>)"

text \<open>
  In the words of the specification: a pointer does not go back. A pointer that holds a
  number holds one at least as large afterwards; a pointer that does not is left alone or
  holds a number not below \<open>least\<close> afterwards.
\<close>

definition pointer_advanced :: "UInt64 \<Rightarrow> UInt64 option \<Rightarrow> UInt64 option \<Rightarrow> bool" where
  "pointer_advanced least before after =
     (case before of
        Some v \<Rightarrow> (case after of None \<Rightarrow> False | Some v' \<Rightarrow> v \<le> v')
      | None \<Rightarrow> (case after of None \<Rightarrow> True | Some v' \<Rightarrow> least \<le> v'))"

text \<open>
  Two replicas with one log each. \<open>r1\<close> wrote the entries 0 and 1 and has pulled none of
  them; \<open>r2\<close> wrote the entries 4 and 5 between them, and \<open>r1\<close> has no pointer to the log
  of \<open>r2\<close> yet.
\<close>

definition table_two_logs :: coordinator where
  "table_two_logs =
     \<lparr>nodes =
        [([], persistent_node '''' 0),
         ([''t''], persistent_node '''' 1),
         ([''t'', ''replicas''], persistent_node '''' 2),
         ([''t'', ''replicas'', ''r1''], persistent_node '''' 3),
         ([''t'', ''replicas'', ''r1'', ''log''], (persistent_node '''' 4)\<lparr>next_seq := 2\<rparr>),
         ([''t'', ''replicas'', ''r1'', ''log_pointers''], persistent_node '''' 5),
         ([''t'', ''replicas'', ''r1'', ''queue''], persistent_node '''' 6),
         ([''t'', ''replicas'', ''r1'', ''log_pointers'', ''r1''], persistent_node ''0'' 7),
         ([''t'', ''replicas'', ''r2''], persistent_node '''' 8),
         ([''t'', ''replicas'', ''r2'', ''log''], (persistent_node '''' 9)\<lparr>next_seq := 6\<rparr>),
         ([''t'', ''replicas'', ''r1'', ''log'', ''log-0000000000''],
            persistent_node (LogEntry_toString (S4_get ''p1'' '''')) 20),
         ([''t'', ''replicas'', ''r2'', ''log'', ''log-0000000004''],
            persistent_node (LogEntry_toString (S4_get ''p2'' '''')) 30),
         ([''t'', ''replicas'', ''r2'', ''log'', ''log-0000000005''],
            persistent_node (LogEntry_toString (S4_get ''p3'' '''')) 40),
         ([''t'', ''replicas'', ''r1'', ''log'', ''log-0000000001''],
            persistent_node (LogEntry_toString (S4_get ''p4'' '''')) 50)],
      zxid = 50\<rparr>"

(* ==== end of definitions ==== *)

section \<open>Properties\<close>

subsection \<open>The log-entry codec\<close>

lemma assertString_append: "assertString s (s @ rest) = Inr rest"
  by (simp add: assertString_def)

lemma readString_plain:
  "plain s \<Longrightarrow> readString (s @ CHR 0x0A # rest) = (s, CHR 0x0A # rest)"
  by (simp add: readString_def plain_def is_delim_def takeWhile_append2 dropWhile_append3
      takeWhile_eq_all_conv dropWhile_eq_Nil_conv)

lemma write_parts_eq: "write_parts ps out = out @ concat (map (\<lambda>s. s @ nl) ps)"
  by (induction ps arbitrary: out) (simp_all add: writeString_def)

lemma read_parts_written:
  "list_all (\<lambda>s. plain s \<and> s \<noteq> ''into'') ps \<Longrightarrow>
   read_parts acc (concat (map (\<lambda>s. s @ nl) ps) @ ''into'' @ nl @ rest) = Inr (acc @ ps, rest)"
proof (induction ps arbitrary: acc)
  case Nil
  have "plain ''into''" by (simp add: plain_def is_delim_def tab_def)
  then have "readString (''into'' @ CHR 0x0A # rest) = (''into'', CHR 0x0A # rest)"
    by (rule readString_plain)
  then show ?case
    by (subst read_parts.simps) (simp add: nl_def assertString_def)
next
  case (Cons p ps)
  then have p: "plain p" "p \<noteq> ''into''" and ps: "list_all (\<lambda>s. plain s \<and> s \<noteq> ''into'') ps"
    by simp_all
  let ?tail = "concat (map (\<lambda>s. s @ nl) ps) @ ''into'' @ nl @ rest"
  have "readString (p @ CHR 0x0A # ?tail) = (p, CHR 0x0A # ?tail)"
    using p(1) by (rule readString_plain)
  then have "read_parts acc (p @ CHR 0x0A # ?tail) = read_parts (acc @ [p]) ?tail"
    using p(2) by (subst read_parts.simps) (simp add: nl_def assertString_def)
  then show ?case
    using Cons.IH [OF ps, of "acc @ [p]"] by (simp add: nl_def)
qed

lemma readString_line:
  "plain s \<Longrightarrow> fst (readString (s @ nl @ rest)) = s \<and> snd (readString (s @ nl @ rest)) = nl @ rest"
  using readString_plain [of s rest] by (simp add: nl_def)

lemma assertString_nl: "assertString nl (nl @ rest) = Inr rest"
  by (rule assertString_append)

lemma plain_get: "plain ''get''" and plain_merge: "plain ''merge''"
  by (simp_all add: plain_def is_delim_def tab_def)

lemma writeText_get:
  "type e = GET_PART \<Longrightarrow>
   writeText e [] = (''format version: 1'' @ nl) @ ''source replica: '' @
     source_replica e @ nl @ ''get'' @ nl @ new_part_name e @ nl @ []"
  by (simp add: writeText_def writeString_def)

lemma writeText_merge:
  "type e = MERGE_PARTS \<Longrightarrow>
   writeText e [] = (''format version: 1'' @ nl) @ ''source replica: '' @
     source_replica e @ nl @ ''merge'' @ nl @
     concat (map (\<lambda>s. s @ nl) (parts_to_merge e)) @ ''into'' @ nl @ new_part_name e @ nl @ []"
  by (simp add: writeText_def writeString_def write_parts_eq)

lemma readText_get:
  assumes "plain src" and "plain pname"
  shows "readText this ((''format version: 1'' @ nl) @ ''source replica: '' @
           src @ nl @ ''get'' @ nl @ pname @ nl @ rest) =
         Inr (this\<lparr>source_replica := src, type := GET_PART, new_part_name := pname\<rparr>, rest)"
  apply (simp only: readText_def assertString_append sum.case Let_def
      readString_line [OF assms(1)] readString_line [OF assms(2)]
      readString_line [OF plain_get])
  apply simp
  done

lemma readText_merge:
  assumes "plain src" and "plain pname" and "list_all (\<lambda>s. plain s \<and> s \<noteq> ''into'') ps"
  shows "readText this ((''format version: 1'' @ nl) @ ''source replica: '' @
           src @ nl @ ''merge'' @ nl @ concat (map (\<lambda>s. s @ nl) ps) @ ''into'' @ nl @
           pname @ nl @ rest) =
         Inr (this\<lparr>source_replica := src, type := MERGE_PARTS,
                    parts_to_merge := parts_to_merge this @ ps, new_part_name := pname\<rparr>, rest)"
  apply (simp only: readText_def assertString_append sum.case Let_def prod.case
      readString_line [OF assms(1)] readString_line [OF assms(2)]
      readString_line [OF plain_merge]
      read_parts_written [OF assms(3)] LogEntry.simps)
  apply simp
  done

lemma readText_writeText:
  assumes "well_formed e" and "parts_to_merge this = []"
  shows "readText this (writeText e []) = Inr (e\<lparr>znode_name := znode_name this\<rparr>, [])"
proof (cases "type e")
  case GET_PART
  from assms(1) GET_PART have p: "plain (source_replica e)" "plain (new_part_name e)"
    and "parts_to_merge e = []"
    by (simp_all add: well_formed_def)
  then have "this\<lparr>source_replica := source_replica e, type := GET_PART,
      new_part_name := new_part_name e\<rparr> = e\<lparr>znode_name := znode_name this\<rparr>"
    using GET_PART assms(2) by simp
  then show ?thesis
    by (simp only: writeText_get [OF GET_PART] readText_get [OF p])
next
  case MERGE_PARTS
  from assms(1) have p: "plain (source_replica e)" "plain (new_part_name e)"
    "list_all (\<lambda>s. plain s \<and> s \<noteq> ''into'') (parts_to_merge e)"
    by (simp_all add: well_formed_def)
  have "this\<lparr>source_replica := source_replica e, type := MERGE_PARTS,
      parts_to_merge := parts_to_merge this @ parts_to_merge e,
      new_part_name := new_part_name e\<rparr> = e\<lparr>znode_name := znode_name this\<rparr>"
    using MERGE_PARTS assms(2) by simp
  then show ?thesis
    by (simp only: writeText_merge [OF MERGE_PARTS] readText_merge [OF p])
qed

lemma LogEntry_parse_toString:
  assumes "well_formed e" and "znode_name e = ''''"
  shows "LogEntry_parse (LogEntry_toString e) = Inr e"
proof -
  let ?fresh = "\<lparr>znode_name = '''', type = GET_PART, source_replica = '''',
                 new_part_name = '''', parts_to_merge = []\<rparr>"
  have "readText ?fresh (writeText e []) = Inr (e\<lparr>znode_name := znode_name ?fresh\<rparr>, [])"
    using assms(1) by (rule readText_writeText) simp
  then show ?thesis
    using assms(2) by (simp add: LogEntry_parse_def LogEntry_toString_def)
qed

text \<open>
  C8. The codec is a round trip: reading, into an entry with no parts to merge yet, the text
  written for a well-formed entry \<open>e\<close> consumes all of it and yields \<open>e\<close>. The node name
  is not part of the text; it stays what it was in the entry read into.
\<close>

theorem codec_round_trip:
  assumes "well_formed e" and "parts_to_merge this = []"
  shows "readText this (writeText e []) = Inr (e\<lparr>znode_name := znode_name this\<rparr>, [])"
  using assms by (rule readText_writeText)

theorem codec_round_trip_witness:
  "well_formed S4_merge \<and>
   readText (S4_merge\<lparr>parts_to_merge := []\<rparr>) (writeText S4_merge []) = Inr (S4_merge, [])"
proof -
  have wf: "well_formed S4_merge"
    by (simp add: well_formed_def S4_merge_def plain_def is_delim_def tab_def)
  have "parts_to_merge (S4_merge\<lparr>parts_to_merge := []\<rparr>) = []" by simp
  from codec_round_trip [OF wf this] wf show ?thesis by (simp add: S4_merge_def)
qed

subsection \<open>Activating a replica\<close>

text \<open>
  C6. On the table \<open>fresh_table\<close>, where replica \<open>r1\<close> is not active, \<^verbatim>\<open>activateReplica\<close>
  succeeds and creates \<open>is_active\<close> as an ephemeral node in the same transaction that sets
  \<open>host\<close>; but the value of the node is the empty text, not the identifier of the process,
  which is never empty.
\<close>

theorem activateReplica_is_active_value_empty:
  "fst (activateReplica storage_r1 ''example.org'' 9009 fresh_table) =
     Inr (storage_r1\<lparr>replica_is_active_node := Some [''t'', ''replicas'', ''r1'', ''is_active'']\<rparr>) \<and>
   lookup (snd (activateReplica storage_r1 ''example.org'' 9009 fresh_table))
     [''t'', ''replicas'', ''r1'', ''is_active''] =
     Some \<lparr>node_value = '''', czxid = 10, ephemeral = True, next_seq = 0\<rparr> \<and>
   active_node_identifier storage_r1 \<noteq> ''''"
  by (simp add: activateReplica_def storage_r1_def fresh_table_def replica_path_def Let_def
      multi_def tryMulti_def tryGet_def lookup_def exists_def created_name_def persistent_node_def)

subsection \<open>\<^verbatim>\<open>canMergeParts\<close>\<close>

lemma not_max_word: "(number :: UInt64) \<le> upper \<Longrightarrow> upper \<noteq> - 1 \<Longrightarrow> number \<noteq> - 1"
  using word_n1_ge [of upper] by (auto simp: word_le_nat_alt word_unat_eq_iff)

lemma unat_inc:
  "(number :: UInt64) \<le> upper \<Longrightarrow> upper \<noteq> - 1 \<Longrightarrow> unat (number + 1) = Suc (unat number)"
proof -
  assume "number \<le> upper" and "upper \<noteq> - 1"
  then have "number \<noteq> - 1" by (rule not_max_word)
  then have "1 + number \<noteq> 0"
    by (metis add.commute add.right_inverse add_left_cancel)
  then have "unat (1 + number) = Suc (unat number)" by (rule unatSuc)
  then show ?thesis by (simp add: add.commute)
qed

text \<open>
  When the upper bound is not the largest \<^verbatim>\<open>UInt64\<close> the loop over the block numbers
  ends, and it answers whether every number from \<open>number\<close> to \<open>upper\<close> is abandoned.
\<close>

lemma all_abandoned_eq:
  assumes "upper \<noteq> - 1"
  shows "all_abandoned check this z m number upper =
         Some (\<forall>n. number \<le> n \<and> n \<le> upper \<longrightarrow> check z (block_number_path this m n) = ABANDONED)"
proof (induction "Suc (unat upper) - unat number" arbitrary: number rule: less_induct)
  case less
  show ?case
  proof (cases "number \<le> upper")
    case False
    then show ?thesis
      by (subst all_abandoned.simps) auto
  next
    case True
    show ?thesis
    proof (cases "check z (block_number_path this m number) = ABANDONED")
      case False
      with True show ?thesis
        by (subst all_abandoned.simps) auto
    next
      case ab: True
      have suc: "unat (number + 1) = Suc (unat number)"
        using True assms by (rule unat_inc)
      have "unat number \<le> unat upper" using True by (simp add: word_le_nat_alt)
      with suc have "Suc (unat upper) - unat (number + 1) < Suc (unat upper) - unat number"
        by simp
      from less [OF this]
      have IH: "all_abandoned check this z m (number + 1) upper =
         Some (\<forall>n. number + 1 \<le> n \<and> n \<le> upper \<longrightarrow> check z (block_number_path this m n) = ABANDONED)" .
      have "number \<noteq> - 1" using True assms by (rule not_max_word)
      then have step: "\<And>n. (number \<le> n) = (n = number \<or> number + 1 \<le> n)"
        by (auto simp: inc_less_eq_iff)
      have "all_abandoned check this z m number upper = all_abandoned check this z m (number + 1) upper"
        using True ab by (subst all_abandoned.simps) simp
      also note IH
      finally show ?thesis
        using ab True by (auto simp: step)
    qed
  qed
qed

text \<open>
  C7. For a left part whose last block number is not the largest \<^verbatim>\<open>UInt64\<close> and a right
  part whose first block number is not 0 (as for any two parts of which the left one ends
  before the right one starts), \<^verbatim>\<open>canMergeParts\<close> returns, and returns true exactly when
  the virtual-parts index gives each part as its own containing part, both parts have a
  node under \<open>parts\<close> of this replica, and every block number \<open>n\<close> strictly between the two
  parts is an abandoned lock at \<open>block_numbers/<month>/block-<n>\<close> of the table, \<open>n\<close>
  written with ten digits and the month being the first six characters of the name of the
  left part.
\<close>

theorem canMergeParts_iff:
  assumes "right left_part \<noteq> - 1" and "left right_part \<noteq> 0"
  shows "canMergeParts vp_getContainingPart check this z left_part right_part =
    Some (vp_getContainingPart (virtual_parts this) (name left_part) = name left_part \<and>
          vp_getContainingPart (virtual_parts this) (name right_part) = name right_part \<and>
          exists z (zookeeper_path this @ [''replicas'', replica_name this, ''parts'', name left_part]) \<and>
          exists z (zookeeper_path this @ [''replicas'', replica_name this, ''parts'', name right_part]) \<and>
          (\<forall>n. right left_part < n \<and> n < left right_part \<longrightarrow>
             check z (zookeeper_path this @
                      [''block_numbers'', take 6 (name left_part),
                       ''block-'' @ pad10 (toString (unat n))]) = ABANDONED))"
proof -
  have "left right_part - 1 \<noteq> - 1" using assms(2) by simp
  note loop = all_abandoned_eq [OF this]
  have "\<And>n. (right left_part + 1 \<le> n \<and> n \<le> left right_part - 1) =
             (right left_part < n \<and> n < left right_part)"
    using assms by (simp add: inc_less_eq_iff less_eq_dec_iff)
  then show ?thesis
    by (auto simp: canMergeParts_def loop block_number_path_def replica_path_def)
qed

theorem canMergeParts_iff_witness:
  "right part_1_5 \<noteq> - 1 \<and> left part_7_9 \<noteq> 0 \<and>
   canMergeParts sample_getContainingPart sample_check storage_two_parts table_two_parts
     part_1_5 part_7_9 = Some True"
proof -
  have r: "right part_1_5 \<noteq> - 1" and l: "left part_7_9 \<noteq> 0"
    by (simp_all add: part_1_5_def part_7_9_def)
  have six: "\<And>n. ((5::UInt64) < n \<and> n < 7) = (n = 6)"
    by unat_arith
  have "pad10 (toString 6) = ''0000000006''"
    by (simp add: toString.simps digit_char_def pad10_def eval_nat_numeral)
  then show ?thesis
    using canMergeParts_iff [OF r l, of sample_getContainingPart sample_check
        storage_two_parts table_two_parts] r l
    by (simp add: part_1_5_def part_7_9_def six sample_getContainingPart_def sample_check_def
        storage_two_parts_def storage_r1_def table_two_parts_def fresh_table_def
        exists_def lookup_def tryGet_def persistent_node_def)
qed

text \<open>
  Without the condition on the right part the equivalence fails. For the left part
  \<open>1_5\<close> and the right part \<open>0_0\<close> the index gives each part as its own containing part,
  both have a node under \<open>parts\<close>, and no block number lies strictly between 5 and 0, so
  every such number is an abandoned lock. But the upper bound \<^verbatim>\<open>right->left - 1\<close> of the
  loop wraps to the largest \<^verbatim>\<open>UInt64\<close>: the loop checks the numbers from 6 upwards, finds
  that 7 is not an abandoned lock, and \<^verbatim>\<open>canMergeParts\<close> returns false.
\<close>

theorem canMergeParts_false_when_right_part_starts_at_zero:
  "sample_getContainingPart (virtual_parts storage_part_zero) (name part_1_5) = name part_1_5 \<and>
   sample_getContainingPart (virtual_parts storage_part_zero) (name part_0_0) = name part_0_0 \<and>
   exists table_part_zero
     (zookeeper_path storage_part_zero @
      [''replicas'', replica_name storage_part_zero, ''parts'', name part_1_5]) \<and>
   exists table_part_zero
     (zookeeper_path storage_part_zero @
      [''replicas'', replica_name storage_part_zero, ''parts'', name part_0_0]) \<and>
   {n. right part_1_5 < n \<and> n < left part_0_0} = {} \<and>
   canMergeParts sample_getContainingPart sample_check storage_part_zero table_part_zero
     part_1_5 part_0_0 = Some False"
proof -
  have p6: "pad10 (toString 6) = ''0000000006''" and p7: "pad10 (toString 7) = ''0000000007''"
    by (simp_all add: toString.simps digit_char_def pad10_def eval_nat_numeral)
  have le: "(6 :: UInt64) \<le> - 1" "(7 :: UInt64) \<le> - 1"
    by simp_all
  have a6: "sample_check table_part_zero (block_number_path storage_part_zero ''201401'' 6) = ABANDONED"
    by (simp add: sample_check_def tryGet_def lookup_def block_number_path_def p6
        storage_part_zero_def storage_r1_def table_part_zero_def table_two_parts_def
        fresh_table_def persistent_node_def)
  have a7: "sample_check table_part_zero (block_number_path storage_part_zero ''201401'' 7) = UNLOCKED"
    by (simp add: sample_check_def tryGet_def lookup_def block_number_path_def p7
        storage_part_zero_def storage_r1_def table_part_zero_def table_two_parts_def
        fresh_table_def persistent_node_def)
  have "all_abandoned sample_check storage_part_zero table_part_zero ''201401'' 7 (- 1) = Some False"
    using le(2) a7 by (subst all_abandoned.simps) simp
  then have loop: "all_abandoned sample_check storage_part_zero table_part_zero ''201401'' 6 (- 1) =
      Some False"
    using le(1) a6 by (subst all_abandoned.simps) simp
  have "{n :: UInt64. 5 < n \<and> n < 0} = {}" by simp
  then show ?thesis
    using loop
    by (simp add: canMergeParts_def part_1_5_def part_0_0_def sample_getContainingPart_def
        storage_part_zero_def storage_r1_def table_part_zero_def table_two_parts_def
        fresh_table_def replica_path_def exists_def lookup_def persistent_node_def)
qed

subsection \<open>Reordering the queue after a failed fetch\<close>

lemma type_cases: "type e = MERGE_PARTS \<or> type e = GET_PART"
  by (cases "type e") simp_all

lemma find_merge_entry_first:
  assumes "\<forall>e \<in> set pre. \<not> (type e = MERGE_PARTS \<and> part_name \<in> set (parts_to_merge e))"
    and "type m = MERGE_PARTS" and "part_name \<in> set (parts_to_merge m)"
  shows "find_merge_entry part_name (pre @ m # post) i = Some (i + length pre, parts_to_merge m)"
  using assms by (induction pre arbitrary: i) auto

lemma move_to_end_prefix:
  "move_to_end pfm (length pre) (pre @ rest) =
     filter (\<lambda>e. new_part_name e \<notin> set pfm) pre @ rest @
     filter (\<lambda>e. new_part_name e \<in> set pfm) pre"
proof (induction pre arbitrary: rest)
  case Nil
  show ?case by (cases rest) simp_all
next
  case (Cons e pre)
  show ?case
  proof (cases "new_part_name e \<in> set pfm")
    case True
    then show ?thesis
      using Cons.IH [of "rest @ [e]"] type_cases [of e] by simp
  next
    case False
    then show ?thesis
      using Cons.IH [of rest] by simp
  qed
qed

lemma reorder_after_failed_fetch_eq:
  assumes "\<forall>e \<in> set pre. \<not> (type e = MERGE_PARTS \<and> part_name \<in> set (parts_to_merge e))"
    and "type m = MERGE_PARTS" and "part_name \<in> set (parts_to_merge m)"
  shows "reorder_after_failed_fetch part_name (pre @ m # post) =
     filter (\<lambda>e. new_part_name e \<notin> set (parts_to_merge m)) pre @ m # post @
     filter (\<lambda>e. new_part_name e \<in> set (parts_to_merge m)) pre"
proof -
  have "parts_to_merge m \<noteq> []" using assms(3) by auto
  then show ?thesis
    using find_merge_entry_first [OF assms, of post 0] move_to_end_prefix [of "parts_to_merge m" pre "m # post"]
    by (simp add: reorder_after_failed_fetch_def)
qed

text \<open>
  C4. The queue starts with an entry that may run, a \<open>GET_PART\<close> of a part that is not
  held locally and that no active replica has; behind it come the entries \<open>pre\<close>, then
  \<open>m\<close>, the first merge entry that takes the part as an input, then \<open>post\<close>. Then
  \<^verbatim>\<open>queueTask\<close> fails and leaves the queue as: the entries of \<open>pre\<close> that do not produce
  an input of \<open>m\<close>, then \<open>m\<close> and \<open>post\<close> in place, then the entries of \<open>pre\<close> that produce
  an input of \<open>m\<close>, in their order, and last the failed entry. The coordinator is
  unchanged, so the node of the failed entry remains. The witness is scenario S4.
\<close>

theorem failed_fetch_reorders_queue:
  assumes "queue this = entry # pre @ m # post"
    and "shouldExecuteLogEntry this entry"
    and "type entry = GET_PART"
    and "getContainingPart c (new_part_name entry) True = None"
    and "findReplicaHavingPart c this z (new_part_name entry) True = Inr ''''"
    and "type m = MERGE_PARTS"
    and "new_part_name entry \<in> set (parts_to_merge m)"
    and "\<forall>e \<in> set pre. \<not> (type e = MERGE_PARTS \<and> new_part_name entry \<in> set (parts_to_merge e))"
  shows "queueTask c this z =
     (False,
      this\<lparr>queue :=
        filter (\<lambda>e. new_part_name e \<notin> set (parts_to_merge m)) pre @ m # post @
        filter (\<lambda>e. new_part_name e \<in> set (parts_to_merge m)) pre @ [entry]\<rparr>,
      z)"
proof -
  let ?this1 = "tagPartAsFuture entry (this\<lparr>queue := pre @ m # post\<rparr>)"
  have sel: "select_entry this (queue this) = Some (entry, pre @ m # post)"
    using assms(1,2) by simp
  have paths: "zookeeper_path ?this1 = zookeeper_path this"
    by (simp add: tagPartAsFuture_def)
  have "findReplicaHavingPart c ?this1 z (new_part_name entry) True = Inr ''''"
    using assms(5) unfolding findReplicaHavingPart_def paths .
  then have fetch: "try_fetch c ?this1 z entry = (Inl NO_REPLICA_HAS_PART, z)"
    by (simp add: try_fetch_def)
  have q: "queue ?this1 = pre @ m # post"
    by (simp add: tagPartAsFuture_def)
  have exe: "executeLogEntry c ?this1 z entry =
     (Inl NO_REPLICA_HAS_PART,
      ?this1\<lparr>queue := reorder_after_failed_fetch (new_part_name entry) (pre @ m # post)\<rparr>, z)"
    using assms(3,4) fetch q by (simp add: executeLogEntry_def Let_def)
  have untag: "new_part_name entry \<notin> set (future_parts this)"
    using assms(2,3) by (auto simp: shouldExecuteLogEntry_def split: if_splits)
  show ?thesis
    using sel exe untag reorder_after_failed_fetch_eq [OF assms(8,6,7), of post]
    by (simp add: queueTask_def tagPartAsFuture_def release_tag_def)
qed

theorem failed_fetch_reorders_queue_witness:
  "queueTask no_parts_anywhere S4_storage S4_table =
     (False,
      S4_storage\<lparr>queue :=
        [S4_merge\<lparr>znode_name := ''queue-0000000002''\<rparr>,
         S4_get ''p2'' ''queue-0000000001'', S4_get ''p1'' ''queue-0000000000'']\<rparr>,
      S4_table)"
proof -
  have 1: "queue S4_storage =
      S4_get ''p1'' ''queue-0000000000'' # [S4_get ''p2'' ''queue-0000000001''] @
      S4_merge\<lparr>znode_name := ''queue-0000000002''\<rparr> # []"
    by (simp add: S4_storage_def S4_queue_def)
  have 2: "shouldExecuteLogEntry S4_storage (S4_get ''p1'' ''queue-0000000000'')"
    by (simp add: shouldExecuteLogEntry_def S4_storage_def storage_r1_def S4_get_def)
  have 3: "type (S4_get ''p1'' ''queue-0000000000'') = GET_PART"
    by (simp add: S4_get_def)
  have 4: "getContainingPart no_parts_anywhere (new_part_name (S4_get ''p1'' ''queue-0000000000'')) True = None"
    by (simp add: no_parts_anywhere_def)
  have 5: "findReplicaHavingPart no_parts_anywhere S4_storage S4_table
      (new_part_name (S4_get ''p1'' ''queue-0000000000'')) True = Inr ''''"
    by (simp add: findReplicaHavingPart_def getChildren_def children_def exists_def lookup_def
        S4_storage_def storage_r1_def S4_table_def fresh_table_def no_parts_anywhere_def S4_get_def)
  have 6: "type (S4_merge\<lparr>znode_name := ''queue-0000000002''\<rparr>) = MERGE_PARTS"
    by (simp add: S4_merge_def)
  have 7: "new_part_name (S4_get ''p1'' ''queue-0000000000'') \<in>
      set (parts_to_merge (S4_merge\<lparr>znode_name := ''queue-0000000002''\<rparr>))"
    by (simp add: S4_merge_def S4_get_def)
  have 8: "\<forall>e \<in> set [S4_get ''p2'' ''queue-0000000001''].
      \<not> (type e = MERGE_PARTS \<and>
         new_part_name (S4_get ''p1'' ''queue-0000000000'') \<in> set (parts_to_merge e))"
    by (simp add: S4_get_def)
  show ?thesis
    using failed_fetch_reorders_queue [OF 1 2 3 4 5 6 7 8]
    by (simp add: S4_merge_def S4_get_def)
qed

subsection \<open>The sanity check of the reconciliation\<close>

lemma lookup_zxid [simp]: "lookup (z\<lparr>zxid := x\<rparr>) p = lookup z p"
  by (simp add: lookup_def)

lemma apply_op_keeps_absent:
  assumes "apply_op zx z op = Inr (z', q)" and "lookup z p = None"
    and "\<And>p0 v m. op = Create p0 v m \<Longrightarrow> butlast p0 \<noteq> butlast p"
  shows "lookup z' p = None"
proof (cases op)
  case (Create p0 v m)
  with assms(3) have ne: "butlast p0 \<noteq> butlast p" by simp
  then have "butlast p0 @ [created_name z p0 m] \<noteq> p" by auto
  moreover have "lookup z (butlast p0) \<noteq> None \<Longrightarrow> butlast p0 \<noteq> p"
    using assms(2) by auto
  ultimately show ?thesis
    using assms(1,2) Create
    by (auto simp: lookup_def update_conv' Let_def split: if_splits option.splits)
next
  case (SetData p0 v)
  then show ?thesis
    using assms(1,2) by (auto simp: lookup_def update_conv' split: option.splits)
next
  case (Remove p0)
  then show ?thesis
    using assms(1,2) by (auto simp: lookup_def delete_conv' split: if_splits)
qed

lemma apply_ops_keeps_absent:
  assumes "apply_ops zx z ops = Inr (z', qs)" and "lookup z p = None"
    and "\<And>p0 v m. Create p0 v m \<in> set ops \<Longrightarrow> butlast p0 \<noteq> butlast p"
  shows "lookup z' p = None"
  using assms
proof (induction ops arbitrary: z qs)
  case Nil
  then show ?case by simp
next
  case (Cons op ops)
  from Cons.prems(1) obtain z1 q1 qs1 where
    1: "apply_op zx z op = Inr (z1, q1)" and 2: "apply_ops zx z1 ops = Inr (z', qs1)"
    by (auto split: sum.splits)
  have "lookup z1 p = None"
  proof (rule apply_op_keeps_absent [OF 1 Cons.prems(2)])
    fix p0 v m
    assume "op = Create p0 v m"
    then show "butlast p0 \<noteq> butlast p"
      using Cons.prems(3) [of p0 v m] by simp
  qed
  with 2 show ?case
  proof (rule Cons.IH)
    fix p0 v m
    assume "Create p0 v m \<in> set ops"
    then show "butlast p0 \<noteq> butlast p"
      using Cons.prems(3) [of p0 v m] by simp
  qed
qed

lemma multi_keeps_absent:
  assumes "lookup z p = None"
    and "\<And>p0 v m. Create p0 v m \<in> set ops \<Longrightarrow> butlast p0 \<noteq> butlast p"
  shows "lookup (snd (multi z ops)) p = None"
proof (cases "apply_ops (zxid z + 1) z ops")
  case (Inl code)
  then show ?thesis using assms(1) by (simp add: multi_def tryMulti_def)
next
  case (Inr r)
  obtain z' qs where r: "r = (z', qs)" by (cases r)
  with Inr have "lookup z' p = None"
    using assms by (auto intro: apply_ops_keeps_absent)
  with Inr r show ?thesis by (simp add: multi_def tryMulti_def)
qed

lemma multi_error: "fst (multi z ops) \<noteq> Inl TOO_MANY_UNEXPECTED_DATA_PARTS"
  by (auto simp: multi_def tryMulti_def split: sum.splits prod.splits)

lemma multi_cases:
  obtains (fails) code where "multi z ops = (Inl (KeeperException code), z)"
  | (succeeds) created z' where "multi z ops = (Inr created, z')"
proof (cases "apply_ops (zxid z + 1) z ops")
  case (Inl code)
  then have "multi z ops = (Inl (KeeperException code), z)"
    by (simp add: multi_def tryMulti_def)
  then show ?thesis by (rule fails)
next
  case (Inr r)
  then have "multi z ops = (Inr (snd r), (fst r)\<lparr>zxid := zxid z + 1\<rparr>)"
    by (cases r) (simp add: multi_def tryMulti_def)
  then show ?thesis by (rule succeeds)
qed

lemma checkPartAndAddToZooKeeper_ops:
  assumes "checkPartAndAddToZooKeeper c this z part [] = Inr ops"
  shows "ops = [Create (replica_path this @ [''parts'', name part]) '''' Persistent,
                Create (replica_path this @ [''parts'', name part, ''checksums''])
                  (checksums part) Persistent]"
  using assms by (auto simp: checkPartAndAddToZooKeeper_def split: sum.splits if_splits)

lemma checkPartAndAddToZooKeeper_error:
  "checkPartAndAddToZooKeeper c this z part ops \<noteq> Inl TOO_MANY_UNEXPECTED_DATA_PARTS"
  by (auto simp: checkPartAndAddToZooKeeper_def findReplicaHavingPart_def getChildren_def
      split: sum.splits if_splits)

lemma add_parts_keeps:
  assumes "lookup z (force_restore_data this) = None"
  shows "lookup (snd (add_parts c this z parts)) (force_restore_data this) = None \<and>
         fst (add_parts c this z parts) \<noteq> Inl TOO_MANY_UNEXPECTED_DATA_PARTS"
  using assms
proof (induction parts arbitrary: z)
  case Nil
  then show ?case by simp
next
  case (Cons part parts)
  show ?case
  proof (cases "checkPartAndAddToZooKeeper c this z part []")
    case (Inl e)
    then show ?thesis
      using Cons.prems checkPartAndAddToZooKeeper_error [of c this z part "[]"] by auto
  next
    case (Inr ops)
    note ops = checkPartAndAddToZooKeeper_ops [OF Inr]
    have absent: "lookup (snd (multi z ops)) (force_restore_data this) = None"
      using Cons.prems
      by (rule multi_keeps_absent) (auto simp: ops force_restore_data_def butlast_append)
    show ?thesis
    proof (cases rule: multi_cases [of z ops])
      case (fails code)
      then show ?thesis using Inr Cons.prems by simp
    next
      case (succeeds created z')
      then show ?thesis using Inr absent Cons.IH [of z'] by simp
    qed
  qed
qed

lemma remove_obsolete_keeps:
  assumes "lookup z (force_restore_data this) = None"
  shows "lookup (snd (remove_obsolete this z names)) (force_restore_data this) = None \<and>
         fst (remove_obsolete this z names) \<noteq> Inl TOO_MANY_UNEXPECTED_DATA_PARTS"
  using assms
proof (induction names arbitrary: z)
  case Nil
  then show ?case by simp
next
  case (Cons n names)
  let ?ops = "[Remove (replica_path this @ [''parts'', n, ''checksums'']),
               Remove (replica_path this @ [''parts'', n])]"
  have absent: "lookup (snd (multi z ?ops)) (force_restore_data this) = None"
    using Cons.prems by (rule multi_keeps_absent) auto
  show ?case
  proof (cases rule: multi_cases [of z ?ops])
    case (fails code)
    then show ?thesis using Cons.prems by simp
  next
    case (succeeds created z')
    then show ?thesis using absent Cons.IH [of z'] by simp
  qed
qed

lemma queue_fetches_keeps:
  assumes "lookup z (force_restore_data this) = None"
  shows "lookup (snd (queue_fetches this z names)) (force_restore_data this) = None \<and>
         fst (queue_fetches this z names) \<noteq> Inl TOO_MANY_UNEXPECTED_DATA_PARTS"
  using assms
proof (induction names arbitrary: z)
  case Nil
  then show ?case by simp
next
  case (Cons n names)
  let ?ops = "[Remove (replica_path this @ [''parts'', n, ''checksums'']),
               Remove (replica_path this @ [''parts'', n]),
               Create (replica_path this @ [''queue'', ''queue-''])
                 (LogEntry_toString \<lparr>znode_name = '''', type = GET_PART, source_replica = '''',
                                     new_part_name = n, parts_to_merge = []\<rparr>)
                 PersistentSequential]"
  have absent: "lookup (snd (multi z ?ops)) (force_restore_data this) = None"
    using Cons.prems
    by (rule multi_keeps_absent) (auto simp: force_restore_data_def butlast_append)
  show ?case
  proof (cases rule: multi_cases [of z ?ops])
    case (fails code)
    then show ?thesis using Cons.prems by simp
  next
    case (succeeds created z')
    then show ?thesis using absent Cons.IH [of z'] by simp
  qed
qed

lemma apply_changes_keeps:
  assumes "lookup z (force_restore_data this) = None"
  shows "lookup (snd (apply_changes c this z sets)) (force_restore_data this) = None \<and>
         fst (apply_changes c this z sets) \<noteq> Inl TOO_MANY_UNEXPECTED_DATA_PARTS"
proof -
  obtain parts_to_add unexpected_parts expected_parts parts_to_fetch
    where sets: "sets = (parts_to_add, unexpected_parts, expected_parts, parts_to_fetch)"
    by (cases sets) auto
  obtain r1 z1 where 1: "add_parts c this z parts_to_add = (r1, z1)" by force
  obtain r2 z2 where 2: "remove_obsolete this z1 expected_parts = (r2, z2)" by force
  obtain r3 z3 where 3: "queue_fetches this z2 parts_to_fetch = (r3, z3)" by force
  have a: "lookup z1 (force_restore_data this) = None" "r1 \<noteq> Inl TOO_MANY_UNEXPECTED_DATA_PARTS"
    using add_parts_keeps [OF assms, of c parts_to_add] 1 by simp_all
  have b: "lookup z2 (force_restore_data this) = None" "r2 \<noteq> Inl TOO_MANY_UNEXPECTED_DATA_PARTS"
    using remove_obsolete_keeps [OF a(1), of expected_parts] 2 by simp_all
  have d: "lookup z3 (force_restore_data this) = None" "r3 \<noteq> Inl TOO_MANY_UNEXPECTED_DATA_PARTS"
    using queue_fetches_keeps [OF b(1), of parts_to_fetch] 3 by simp_all
  show ?thesis
    using 1 2 3 a b d by (auto simp: apply_changes_def sets split: sum.splits)
qed

lemma remove_leaf:
  assumes "exists z p" and "children z p = []"
  shows "remove z p = (Inr [p], z\<lparr>nodes := AList.delete p (nodes z), zxid := zxid z + 1\<rparr>)"
  using assms by (simp add: remove_def multi_def tryMulti_def)

lemma remove_succeeds:
  assumes "remove z p = (Inr created, z')"
  shows "children z p = [] \<and> lookup z' p = None"
  using assms
  by (auto simp: remove_def multi_def tryMulti_def lookup_def delete_conv'
      split: if_splits sum.splits prod.splits)

lemma remove_error: "fst (remove z p) \<noteq> Inl TOO_MANY_UNEXPECTED_DATA_PARTS"
  unfolding remove_def by (rule multi_error)

lemma remove_cases:
  obtains (fails) code where "remove z p = (Inl (KeeperException code), z)"
  | (succeeds) created z' where "remove z p = (Inr created, z')"
  unfolding remove_def by (rule multi_cases)

lemma classify_local_eq:
  assumes "distinct (map name ps)" and "set unexpected \<inter> set ps = {}"
  shows "classify_local ps expected unexpected =
           (filter (\<lambda>n. n \<notin> name ` set ps) expected,
            unexpected @ filter (\<lambda>p. name p \<notin> set expected) ps)"
  using assms
proof (induction ps arbitrary: expected unexpected)
  case Nil
  show ?case by simp
next
  case (Cons p ps)
  from Cons.prems have d: "distinct (map name ps)" and np: "name p \<notin> name ` set ps"
    and pu: "p \<notin> set unexpected" and disj: "set unexpected \<inter> set ps = {}"
    and pp: "p \<notin> set ps"
    by auto
  show ?case
  proof (cases "name p \<in> set expected")
    case True
    have 1: "filter (\<lambda>n. n \<notin> name ` set ps) (removeAll (name p) expected) =
        filter (\<lambda>n. n \<notin> name ` set (p # ps)) expected"
      by (induction expected) auto
    have ne: "name q \<noteq> name p" if "q \<in> set ps" for q
      using np that by (metis imageI)
    have 2: "filter (\<lambda>q. name q \<notin> set (removeAll (name p) expected)) ps =
        filter (\<lambda>q. name q \<notin> set expected) ps"
      by (intro filter_cong refl) (simp add: ne)
    show ?thesis
      using True Cons.IH [OF d disj, of "removeAll (name p) expected"] 1 2 by simp
  next
    case False
    have 1: "filter (\<lambda>n. n \<notin> name ` set ps) expected =
        filter (\<lambda>n. n \<notin> name ` set (p # ps)) expected"
      using False by (intro filter_cong) auto
    have disj': "set (unexpected @ [p]) \<inter> set ps = {}"
      using disj pp by auto
    show ?thesis
      using False pu Cons.IH [OF d disj', of expected] 1 by simp
  qed
qed

lemma classify_missing_sets:
  assumes "classify_missing c missing to_add unexpected to_fetch = (to_add', unexpected', to_fetch')"
  shows "to_fetch' = to_fetch @ filter (\<lambda>n. getContainingPart c n False = None) missing"
    and "set to_add' = set to_add \<union>
           {p \<in> set unexpected. \<exists>n \<in> set missing. getContainingPart c n False = Some p}"
    and "set unexpected' =
           {p \<in> set unexpected. \<not> (\<exists>n \<in> set missing. getContainingPart c n False = Some p)}"
    and "distinct to_add \<Longrightarrow> distinct unexpected \<Longrightarrow> set to_add \<inter> set unexpected = {} \<Longrightarrow>
           distinct to_add' \<and> distinct unexpected'"
proof -
  have "to_fetch' = to_fetch @ filter (\<lambda>n. getContainingPart c n False = None) missing \<and>
    set to_add' = set to_add \<union>
           {p \<in> set unexpected. \<exists>n \<in> set missing. getContainingPart c n False = Some p} \<and>
    set unexpected' =
           {p \<in> set unexpected. \<not> (\<exists>n \<in> set missing. getContainingPart c n False = Some p)} \<and>
    (distinct to_add \<longrightarrow> distinct unexpected \<longrightarrow> set to_add \<inter> set unexpected = {} \<longrightarrow>
           distinct to_add' \<and> distinct unexpected')"
    using assms
  proof (induction missing arbitrary: to_add unexpected to_fetch)
    case Nil
    then show ?case by auto
  next
    case (Cons n missing)
    show ?case
    proof (cases "getContainingPart c n False")
      case None
      with Cons.prems have
        "classify_missing c missing to_add unexpected (to_fetch @ [n]) =
           (to_add', unexpected', to_fetch')"
        by simp
      from Cons.IH [OF this] None show ?thesis by auto
    next
      case (Some p)
      show ?thesis
      proof (cases "p \<in> set unexpected")
        case True
        with Cons.prems Some have
          "classify_missing c missing (to_add @ [p]) (removeAll p unexpected) to_fetch =
             (to_add', unexpected', to_fetch')"
          by simp
        from Cons.IH [OF this] Some True show ?thesis
          by (auto simp: distinct_removeAll)
      next
        case False
        with Cons.prems Some have
          "classify_missing c missing to_add unexpected to_fetch =
             (to_add', unexpected', to_fetch')"
          by simp
        from Cons.IH [OF this] Some False show ?thesis by auto
      qed
    qed
  qed
  then show "to_fetch' = to_fetch @ filter (\<lambda>n. getContainingPart c n False = None) missing"
    and "set to_add' = set to_add \<union>
           {p \<in> set unexpected. \<exists>n \<in> set missing. getContainingPart c n False = Some p}"
    and "set unexpected' =
           {p \<in> set unexpected. \<not> (\<exists>n \<in> set missing. getContainingPart c n False = Some p)}"
    and "distinct to_add \<Longrightarrow> distinct unexpected \<Longrightarrow> set to_add \<inter> set unexpected = {} \<Longrightarrow>
           distinct to_add' \<and> distinct unexpected'"
    by blast+
qed

text \<open>
  The four sets that the sanity check counts, when the local parts have different names.
  A name is missing when the coordinator expects it and no local part has it. The parts to
  fetch are the missing names that no local part covers; the obsolete parts are the
  missing names that a local part covers; the parts to add are the local parts unknown to
  the coordinator that cover a missing name; the unexpected parts are the other local parts
  unknown to the coordinator. None of the four lists repeats an element, so that its
  length is the size of the set.
\<close>

lemma reconcile_sets:
  assumes "distinct (map name parts)"
    and "reconcile c parts expected_parts_vec =
           (parts_to_add, unexpected_parts, obsolete_parts, parts_to_fetch)"
  shows "set parts_to_fetch =
           {n \<in> set expected_parts_vec. n \<notin> name ` set parts \<and> getContainingPart c n False = None}"
    and "set obsolete_parts =
           {n \<in> set expected_parts_vec. n \<notin> name ` set parts \<and> getContainingPart c n False \<noteq> None}"
    and "set parts_to_add =
           {p \<in> set parts. name p \<notin> set expected_parts_vec \<and>
              (\<exists>n \<in> set expected_parts_vec. n \<notin> name ` set parts \<and>
                 getContainingPart c n False = Some p)}"
    and "set unexpected_parts =
           {p \<in> set parts. name p \<notin> set expected_parts_vec \<and>
              \<not> (\<exists>n \<in> set expected_parts_vec. n \<notin> name ` set parts \<and>
                   getContainingPart c n False = Some p)}"
    and "distinct parts_to_fetch" and "distinct obsolete_parts"
    and "distinct parts_to_add" and "distinct unexpected_parts"
proof -
  let ?E0 = "sort (remdups expected_parts_vec)"
  let ?E1 = "filter (\<lambda>n. n \<notin> name ` set parts) ?E0"
  let ?U0 = "filter (\<lambda>p. name p \<notin> set ?E0) parts"
  have local: "classify_local parts ?E0 [] = (?E1, ?U0)"
    using classify_local_eq [OF assms(1), of "[]" ?E0] by simp
  with assms(2) have missing:
    "classify_missing c ?E1 [] ?U0 [] = (parts_to_add, unexpected_parts, parts_to_fetch)"
    and obs: "obsolete_parts = filter (\<lambda>n. n \<notin> set parts_to_fetch) ?E1"
    by (auto simp: reconcile_def split: prod.splits)
  note m = classify_missing_sets [OF missing]
  have dE: "distinct ?E1" by simp
  from assms(1) have dU: "distinct ?U0" by (simp add: distinct_map)
  show "set parts_to_fetch =
           {n \<in> set expected_parts_vec. n \<notin> name ` set parts \<and> getContainingPart c n False = None}"
    using m(1) by auto
  show "set obsolete_parts =
           {n \<in> set expected_parts_vec. n \<notin> name ` set parts \<and> getContainingPart c n False \<noteq> None}"
    using m(1) obs by auto
  show "set parts_to_add =
           {p \<in> set parts. name p \<notin> set expected_parts_vec \<and>
              (\<exists>n \<in> set expected_parts_vec. n \<notin> name ` set parts \<and>
                 getContainingPart c n False = Some p)}"
    using m(2) by auto
  show "set unexpected_parts =
           {p \<in> set parts. name p \<notin> set expected_parts_vec \<and>
              \<not> (\<exists>n \<in> set expected_parts_vec. n \<notin> name ` set parts \<and>
                   getContainingPart c n False = Some p)}"
    using m(3) by auto
  show "distinct parts_to_fetch" using m(1) dE by simp
  show "distinct obsolete_parts" using obs dE by simp
  show "distinct parts_to_add" and "distinct unexpected_parts"
    using m(4) dU by simp_all
qed

text \<open>
  C5. Reconciliation raises \<open>TOO_MANY_UNEXPECTED_DATA_PARTS\<close> exactly when the children of
  \<open>parts\<close> can be read, more than 2 parts are to add, or more than 2 local parts are
  unexpected, or more than 20 expected parts are obsolete, or more than 2 parts are to
  fetch, and the sentinel \<open>flags/force_restore_data\<close> of the replica is absent. When the
  sentinel is present, as a node without children of a replica that has its \<open>parts\<close>
  node, it is gone from the coordinator after the call, so the check is skipped once.
  The four sets are those of \<open>reconcile\<close>, which \<open>reconcile_sets\<close> describes.
\<close>

theorem checkParts_sanity_gate:
  "(fst (checkParts c this parts z) = Inl TOO_MANY_UNEXPECTED_DATA_PARTS \<longleftrightarrow>
      (\<exists>expected_parts_vec parts_to_add unexpected_parts obsolete_parts parts_to_fetch.
         getChildren z (zookeeper_path this @ [''replicas'', replica_name this, ''parts'']) =
           Inr expected_parts_vec \<and>
         reconcile c parts expected_parts_vec =
           (parts_to_add, unexpected_parts, obsolete_parts, parts_to_fetch) \<and>
         (length parts_to_add > 2 \<or> length unexpected_parts > 2 \<or>
          length obsolete_parts > 20 \<or> length parts_to_fetch > 2)) \<and>
      \<not> exists z (zookeeper_path this @
                   [''replicas'', replica_name this, ''flags'', ''force_restore_data''])) \<and>
   (exists z (zookeeper_path this @
                [''replicas'', replica_name this, ''flags'', ''force_restore_data'']) \<and>
    children z (zookeeper_path this @
                  [''replicas'', replica_name this, ''flags'', ''force_restore_data'']) = [] \<and>
    exists z (zookeeper_path this @ [''replicas'', replica_name this, ''parts'']) \<longrightarrow>
      \<not> exists (snd (checkParts c this parts z))
          (zookeeper_path this @
             [''replicas'', replica_name this, ''flags'', ''force_restore_data'']))"
proof -
  have frd: "zookeeper_path this @ [''replicas'', replica_name this, ''flags'', ''force_restore_data''] =
      force_restore_data this"
    and prt: "zookeeper_path this @ [''replicas'', replica_name this, ''parts''] =
      replica_path this @ [''parts'']"
    by (simp_all add: force_restore_data_def replica_path_def)
  have ins: "insane sets =
      (\<exists>parts_to_add unexpected_parts obsolete_parts parts_to_fetch.
         sets = (parts_to_add, unexpected_parts, obsolete_parts, parts_to_fetch) \<and>
         (length parts_to_add > 2 \<or> length unexpected_parts > 2 \<or>
          length obsolete_parts > 20 \<or> length parts_to_fetch > 2))" for sets
    by (cases sets) (simp add: insane_def)
  show ?thesis
    unfolding frd prt
  proof (cases "getChildren z (replica_path this @ [''parts''])")
    case (Inl e)
    then have "e = KeeperException ZNONODE"
      by (auto simp: getChildren_def split: if_splits)
    with Inl show "(fst (checkParts c this parts z) = Inl TOO_MANY_UNEXPECTED_DATA_PARTS \<longleftrightarrow>
      (\<exists>expected_parts_vec parts_to_add unexpected_parts obsolete_parts parts_to_fetch.
         getChildren z (replica_path this @ [''parts'']) = Inr expected_parts_vec \<and>
         reconcile c parts expected_parts_vec =
           (parts_to_add, unexpected_parts, obsolete_parts, parts_to_fetch) \<and>
         (length parts_to_add > 2 \<or> length unexpected_parts > 2 \<or>
          length obsolete_parts > 20 \<or> length parts_to_fetch > 2)) \<and>
      \<not> exists z (force_restore_data this)) \<and>
      (exists z (force_restore_data this) \<and> children z (force_restore_data this) = [] \<and>
       exists z (replica_path this @ [''parts'']) \<longrightarrow>
        \<not> exists (snd (checkParts c this parts z)) (force_restore_data this))"
      by (auto simp: checkParts_def getChildren_def exists_def split: if_splits)
  next
    case (Inr vec)
    let ?sets = "reconcile c parts vec"
    have gate: "(\<exists>expected_parts_vec parts_to_add unexpected_parts obsolete_parts parts_to_fetch.
         getChildren z (replica_path this @ [''parts'']) = Inr expected_parts_vec \<and>
         reconcile c parts expected_parts_vec =
           (parts_to_add, unexpected_parts, obsolete_parts, parts_to_fetch) \<and>
         (length parts_to_add > 2 \<or> length unexpected_parts > 2 \<or>
          length obsolete_parts > 20 \<or> length parts_to_fetch > 2)) = insane ?sets"
      unfolding ins [of ?sets] Inr by simp
    have present: "exists z (replica_path this @ [''parts''])"
      using Inr by (auto simp: getChildren_def split: if_splits)
    show "(fst (checkParts c this parts z) = Inl TOO_MANY_UNEXPECTED_DATA_PARTS \<longleftrightarrow>
      (\<exists>expected_parts_vec parts_to_add unexpected_parts obsolete_parts parts_to_fetch.
         getChildren z (replica_path this @ [''parts'']) = Inr expected_parts_vec \<and>
         reconcile c parts expected_parts_vec =
           (parts_to_add, unexpected_parts, obsolete_parts, parts_to_fetch) \<and>
         (length parts_to_add > 2 \<or> length unexpected_parts > 2 \<or>
          length obsolete_parts > 20 \<or> length parts_to_fetch > 2)) \<and>
      \<not> exists z (force_restore_data this)) \<and>
      (exists z (force_restore_data this) \<and> children z (force_restore_data this) = [] \<and>
       exists z (replica_path this @ [''parts'']) \<longrightarrow>
        \<not> exists (snd (checkParts c this parts z)) (force_restore_data this))"
      unfolding gate
    proof (cases "exists z (force_restore_data this)")
      case False
      then have absent: "lookup z (force_restore_data this) = None"
        by (simp add: exists_def)
      from apply_changes_keeps [OF absent, of c ?sets]
      show "(fst (checkParts c this parts z) = Inl TOO_MANY_UNEXPECTED_DATA_PARTS \<longleftrightarrow>
          insane ?sets \<and> \<not> exists z (force_restore_data this)) \<and>
        (exists z (force_restore_data this) \<and> children z (force_restore_data this) = [] \<and>
         exists z (replica_path this @ [''parts'']) \<longrightarrow>
          \<not> exists (snd (checkParts c this parts z)) (force_restore_data this))"
        using Inr False by (auto simp: checkParts_def Let_def)
    next
      case True
      show "(fst (checkParts c this parts z) = Inl TOO_MANY_UNEXPECTED_DATA_PARTS \<longleftrightarrow>
          insane ?sets \<and> \<not> exists z (force_restore_data this)) \<and>
        (exists z (force_restore_data this) \<and> children z (force_restore_data this) = [] \<and>
         exists z (replica_path this @ [''parts'']) \<longrightarrow>
          \<not> exists (snd (checkParts c this parts z)) (force_restore_data this))"
      proof (cases rule: remove_cases [of z "force_restore_data this"])
        case (fails code)
        have "children z (force_restore_data this) \<noteq> []"
        proof
          assume "children z (force_restore_data this) = []"
          from remove_leaf [OF True this] fails show False by simp
        qed
        then show ?thesis
          using Inr True fails by (simp add: checkParts_def Let_def)
      next
        case (succeeds created z')
        have gone: "lookup z' (force_restore_data this) = None"
          using remove_succeeds [OF succeeds] by simp
        from apply_changes_keeps [OF gone, of c ?sets]
        have "\<not> exists (snd (apply_changes c this z' ?sets)) (force_restore_data this)"
          and "fst (apply_changes c this z' ?sets) \<noteq> Inl TOO_MANY_UNEXPECTED_DATA_PARTS"
          by (simp_all add: exists_def)
        then show ?thesis
          using Inr True succeeds by (simp add: checkParts_def Let_def)
      qed
    qed
  qed
qed

text \<open>
  With no local part and the three parts \<open>p1\<close>, \<open>p2\<close>, \<open>p3\<close> expected, three parts are to
  fetch: the check fails without the sentinel, and with the sentinel it is skipped and
  the sentinel is removed.
\<close>

theorem checkParts_sanity_gate_witness:
  "exists table_three_parts_forced [''t'', ''replicas'', ''r1'', ''flags'', ''force_restore_data''] \<and>
   children table_three_parts_forced [''t'', ''replicas'', ''r1'', ''flags'', ''force_restore_data''] = [] \<and>
   exists table_three_parts_forced [''t'', ''replicas'', ''r1'', ''parts''] \<and>
   fst (checkParts no_parts_anywhere storage_r1 [] table_three_parts_forced) \<noteq>
     Inl TOO_MANY_UNEXPECTED_DATA_PARTS \<and>
   \<not> exists (snd (checkParts no_parts_anywhere storage_r1 [] table_three_parts_forced))
     [''t'', ''replicas'', ''r1'', ''flags'', ''force_restore_data''] \<and>
   reconcile no_parts_anywhere [] [''p1'', ''p2'', ''p3''] = ([], [], [], [''p1'', ''p2'', ''p3'']) \<and>
   fst (checkParts no_parts_anywhere storage_r1 [] table_three_parts) =
     Inl TOO_MANY_UNEXPECTED_DATA_PARTS"
proof -
  have s: "zookeeper_path storage_r1 = [''t'']" "replica_name storage_r1 = ''r1''"
    by (simp_all add: storage_r1_def)
  have 1: "exists table_three_parts_forced [''t'', ''replicas'', ''r1'', ''flags'', ''force_restore_data'']"
    and 2: "children table_three_parts_forced [''t'', ''replicas'', ''r1'', ''flags'', ''force_restore_data''] = []"
    and 3: "exists table_three_parts_forced [''t'', ''replicas'', ''r1'', ''parts'']"
    and 4: "\<not> exists table_three_parts [''t'', ''replicas'', ''r1'', ''flags'', ''force_restore_data'']"
    by (simp_all add: exists_def lookup_def children_def
        table_three_parts_forced_def table_three_parts_def fresh_table_def)
  have 5: "getChildren table_three_parts [''t'', ''replicas'', ''r1'', ''parts''] =
      Inr [''p1'', ''p2'', ''p3'']"
    by (simp add: getChildren_def exists_def lookup_def children_def
        table_three_parts_def fresh_table_def)
  have 6: "reconcile no_parts_anywhere [] [''p1'', ''p2'', ''p3''] = ([], [], [], [''p1'', ''p2'', ''p3''])"
    by (simp add: reconcile_def no_parts_anywhere_def)
  show ?thesis
    using checkParts_sanity_gate [of no_parts_anywhere storage_r1 "[]" table_three_parts_forced]
      checkParts_sanity_gate [of no_parts_anywhere storage_r1 "[]" table_three_parts]
      1 2 3 4 5 6
    unfolding s by auto
qed

subsection \<open>Construction without a coordinator\<close>

lemma after_calls_fixed:
  assumes "permanent_shutdown_called this" and "\<not> restarting_thread this"
  shows "after_calls (this, zookeeper) calls = (this, zookeeper)"
  unfolding after_calls_def
proof (induction calls)
  case Nil
  show ?case by simp
next
  case (Cons a calls)
  have "after_call (this, zookeeper) a = (this, zookeeper)"
    using assms by (cases a) (simp_all add: shutdown_def)
  with Cons show ?case by simp
qed

text \<open>
  C10. Constructed without a coordinator, whatever the other arguments, the storage is the
  new storage with \<open>is_read_only\<close>, \<open>shutdown_called\<close> and \<open>permanent_shutdown_called\<close> set
  and the merger cancelled: \<open>initialise\<close> has not run, no thread and no task runs, there
  is no election, no \<open>is_active\<close> holder and no endpoint, and there is still no coordinator.
  No sequence of calls changes this storage; after any of them \<open>write\<close> raises
  \<open>TABLE_IS_READ_ONLY\<close> and \<open>read\<close> returns its streams.
\<close>

theorem read_only_without_coordinator:
  "(let ro = (new_storage zp rn)\<lparr>is_read_only := True, shutdown_called := True,
                permanent_shutdown_called := True, merger_cancelled := True\<rparr>
    in StorageReplicatedMergeTree_create initialise clock zp rn attach None = (Inr ro, None) \<and>
       \<not> restarting_thread ro \<and> \<not> queue_updating_thread ro \<and> \<not> merge_selecting_thread ro \<and>
       \<not> clear_old_blocks_thread ro \<and> \<not> queue_task_handle ro \<and> \<not> leader_election ro \<and>
       replica_is_active_node ro = None \<and> \<not> endpoint_holder ro \<and>
       after_calls (ro, None) calls = (ro, None) \<and>
       write_query (fst (after_calls (ro, None) calls)) query = Inl TABLE_IS_READ_ONLY \<and>
       read (fst (after_calls (ro, None) calls)) res unreplicated =
         (case unreplicated of None \<Rightarrow> res | Some res2 \<Rightarrow> res2 @ res))"
proof -
  let ?ro = "(new_storage zp rn)\<lparr>is_read_only := True, shutdown_called := True,
                permanent_shutdown_called := True, merger_cancelled := True\<rparr>"
  have built: "StorageReplicatedMergeTree_create initialise clock zp rn attach None = (Inr ?ro, None)"
    by (simp add: StorageReplicatedMergeTree_create_def StorageReplicatedMergeTree_def
        goReadOnly_def join_threads_def release_is_active_def new_storage_def)
  have fixed: "after_calls (?ro, None) calls = (?ro, None)"
    by (rule after_calls_fixed) (simp_all add: new_storage_def)
  have flags: "\<not> restarting_thread ?ro \<and> \<not> queue_updating_thread ?ro \<and>
       \<not> merge_selecting_thread ?ro \<and> \<not> clear_old_blocks_thread ?ro \<and>
       \<not> queue_task_handle ?ro \<and> \<not> leader_election ?ro \<and>
       replica_is_active_node ?ro = None \<and> \<not> endpoint_holder ?ro"
    by (simp add: new_storage_def)
  have w: "write_query ?ro query = Inl TABLE_IS_READ_ONLY"
    by (simp add: write_query_def)
  show ?thesis
    unfolding Let_def fixed fst_conv
    using built flags w by (simp add: read_def)
qed

subsection \<open>The limit on queued merges\<close>

lemma pad10_digit: "n < 10 \<Longrightarrow> pad10 (toString n) = ''000000000'' @ [digit_char n]"
  by (simp add: toString.simps pad10_def eval_nat_numeral)

lemma can: "canMergeParts sample_getContainingPart sample_check storage_one_merge table_two_parts
     part_1_5 part_7_9 = Some True"
  by (simp add: canMergeParts_def all_abandoned.simps part_1_5_def part_7_9_def
      sample_getContainingPart_def sample_check_def storage_one_merge_def
      storage_two_parts_def storage_r1_def table_two_parts_def fresh_table_def
      replica_path_def exists_def lookup_def tryGet_def block_number_path_def
      persistent_node_def pad10_digit digit_char_def)

lemma parse_new:
  "LogEntry_parse (LogEntry_toString
      \<lparr>znode_name = [], type = MERGE_PARTS, source_replica = ''r1'',
       new_part_name = ''20140101_20140131_1_9_2'',
       parts_to_merge = [''20140101_20140131_1_5_1'', ''20140101_20140131_7_9_1'']\<rparr>) =
   Inr \<lparr>znode_name = [], type = MERGE_PARTS, source_replica = ''r1'',
       new_part_name = ''20140101_20140131_1_9_2'',
       parts_to_merge = [''20140101_20140131_1_5_1'', ''20140101_20140131_7_9_1'']\<rparr>"
  by (rule LogEntry_parse_toString)
     (simp_all add: well_formed_def plain_def is_delim_def tab_def)

lemma count_merges_fst:
  "fst (count_merges c g q n b) = n + length (filter (\<lambda>e. type e = MERGE_PARTS) q)"
  by (induction q arbitrary: n b) simp_all

text \<open>
  While no big merge runs in the background pool, a turn that finds as many merges queued
  as the setting allows selects nothing and writes nothing.
\<close>

lemma turn_honours_limit:
  assumes "replicated_big_merges s = 0"
    and "max_replicated_merges_in_queue s \<le> length (filter (\<lambda>e. type e = MERGE_PARTS) (queue this))"
  shows "merge_selecting_turn s c this z = Some (False, this, z)"
  using assms by (simp add: merge_selecting_turn_def Let_def count_merges_fst)

text \<open>
  C9. The leader \<open>r1\<close> has one merge in its queue and \<open>max_replicated_merges_in_queue\<close> is
  1, so the queue is full; a big merge runs in the background pool. The turn of the loop
  does not count the queue: it selects the merge of the two parts, appends the entry
  \<open>log-0000000000\<close> to the log of \<open>r1\<close>, pulls it into the queue and reports success.
\<close>

theorem merge_selected_despite_full_queue:
  "max_replicated_merges_in_queue busy_leader \<le>
     length (filter (\<lambda>e. type e = MERGE_PARTS) (queue storage_one_merge)) \<and>
   \<not> exists table_two_parts [''t'', ''replicas'', ''r1'', ''log'', ''log-0000000000''] \<and>
   (case merge_selecting_turn busy_leader local_two_parts storage_one_merge table_two_parts of
      None \<Rightarrow> False
    | Some (success, this', z') \<Rightarrow>
        success \<and> exists z' [''t'', ''replicas'', ''r1'', ''log'', ''log-0000000000''] \<and>
        map new_part_name (queue this') = [''p3'', ''20140101_20140131_1_9_2''])"
  apply (simp add: merge_selecting_turn_def Let_def busy_leader_def can)
  apply (simp add: create_def multi_def tryMulti_def Let_def lookup_def exists_def created_name_def
    table_two_parts_def fresh_table_def storage_one_merge_def storage_two_parts_def storage_r1_def replica_path_def
    persistent_node_def pad10_digit digit_char_def S4_merge_def
    pullLogsToQueue_def getChildren_def children_def first_index_def tryGet_def log_index_def substr_def
    parseUInt64_def is_digit_def digit_val_def readEntry_def log_entry_path_def
    pq_push_def pq_top_def pq_pop_def drain.simps pull_entry_def pull_ops_def
    addResultToVirtualParts_def
    parse_new
    remove_block_numbers.simps tryRemove_def block_number_path_def part_1_5_def part_7_9_def)
  done

subsection \<open>Decimal numerals and sequential names\<close>

lemma digits_value_split: "digits_value a ds = a * 10 ^ length ds + digits_value 0 ds"
proof (induction ds arbitrary: a)
  case Nil
  show ?case by simp
next
  case (Cons c cs)
  show ?case
    using Cons.IH [of "10 * a + digit_val c"] Cons.IH [of "digit_val c"]
    by (simp add: algebra_simps)
qed

lemma digit_val_less: "is_digit c \<Longrightarrow> digit_val c < 10"
  by (auto simp: is_digit_def digit_val_def)

lemma weigh_bound:
  fixes d b w N :: nat
  assumes "d < b" and "w < N"
  shows "d * N + w < b * N"
proof -
  have "Suc d * N \<le> b * N" using assms(1) by (intro mult_le_mono1) simp
  with assms(2) show ?thesis by simp
qed

lemma digits_value_bound: "list_all is_digit ds \<Longrightarrow> digits_value 0 ds < 10 ^ length ds"
proof (induction ds)
  case Nil
  show ?case by simp
next
  case (Cons c cs)
  then have "digit_val c < 10" and "digits_value 0 cs < 10 ^ length cs"
    by (simp_all add: digit_val_less)
  then have "digit_val c * 10 ^ length cs + digits_value 0 cs < 10 * 10 ^ length cs"
    by (rule weigh_bound)
  then show ?case
    using digits_value_split [of "digit_val c" cs] by simp
qed

lemma readIntText_digits:
  "list_all is_digit ds \<Longrightarrow> readIntText (of_nat a) ds = of_nat (digits_value a ds)"
proof (induction ds arbitrary: a)
  case Nil
  show ?case by simp
next
  case (Cons c cs)
  have "(of_nat a :: UInt64) * 10 + of_nat (digit_val c) = of_nat (10 * a + digit_val c)"
    by simp
  with Cons show ?case by (simp del: of_nat_add of_nat_mult)
qed

lemma parseUInt64_digits:
  assumes "list_all is_digit ds" and "ds \<noteq> []"
  shows "parseUInt64 ds = Inr (of_nat (digits_value 0 ds))"
  using assms readIntText_digits [of ds 0]
  by (cases ds) (simp_all add: parseUInt64_def)

lemma unat_of_small: "v < 10 ^ 10 \<Longrightarrow> unat (of_nat v :: UInt64) = v"
  by (rule of_nat_inverse) simp_all

lemma weigh:
  fixes d1 d2 w1 w2 N :: nat
  assumes "w1 < N" and "w2 < N"
  shows "(d1 * N + w1 < d2 * N + w2) = (d1 < d2 \<or> d1 = d2 \<and> w1 < w2)"
proof (cases d1 d2 rule: linorder_cases)
  case less
  then have "Suc d1 * N \<le> d2 * N" by (intro mult_le_mono1) simp
  with assms less show ?thesis by simp
next
  case equal
  then show ?thesis by simp
next
  case greater
  then have "Suc d2 * N \<le> d1 * N" by (intro mult_le_mono1) simp
  with assms greater show ?thesis by simp
qed

lemma weigh_eq:
  fixes d1 d2 w1 w2 N :: nat
  assumes "w1 < N" and "w2 < N"
  shows "(d1 * N + w1 = d2 * N + w2) = (d1 = d2 \<and> w1 = w2)"
proof
  assume eq: "d1 * N + w1 = d2 * N + w2"
  have "\<not> (d1 < d2 \<or> d1 = d2 \<and> w1 < w2)"
    using weigh [OF assms, of d1 d2] eq by simp
  moreover have "\<not> (d2 < d1 \<or> d2 = d1 \<and> w2 < w1)"
    using weigh [OF assms(2,1), of d2 d1] eq by simp
  ultimately show "d1 = d2 \<and> w1 = w2" by linarith
next
  assume "d1 = d2 \<and> w1 = w2"
  then show "d1 * N + w1 = d2 * N + w2" by simp
qed

lemma digit_order:
  assumes "is_digit c1" and "is_digit c2"
  shows "(c1 < c2) = (digit_val c1 < digit_val c2)" and "(c1 = c2) = (digit_val c1 = digit_val c2)"
proof -
  show "(c1 < c2) = (digit_val c1 < digit_val c2)"
    using assms by (auto simp: less_char_def is_digit_def digit_val_def)
  show "(c1 = c2) = (digit_val c1 = digit_val c2)"
  proof
    assume "c1 = c2"
    then show "digit_val c1 = digit_val c2" by simp
  next
    assume "digit_val c1 = digit_val c2"
    then have "(of_char c1 :: nat) = of_char c2"
      using assms unfolding is_digit_def digit_val_def by linarith
    then show "c1 = c2" by (metis char_of_char)
  qed
qed

lemma digits_order:
  assumes "length ds1 = length ds2" and "list_all is_digit ds1" and "list_all is_digit ds2"
  shows "(ds1 < ds2) = (digits_value 0 ds1 < digits_value 0 ds2) \<and>
         (ds1 = ds2) = (digits_value 0 ds1 = digits_value 0 ds2)"
  using assms
proof (induction ds1 ds2 rule: list_induct2)
  case Nil
  show ?case by simp
next
  case (Cons c1 cs1 c2 cs2)
  then have IH: "(cs1 < cs2) = (digits_value 0 cs1 < digits_value 0 cs2)"
      "(cs1 = cs2) = (digits_value 0 cs1 = digits_value 0 cs2)"
    and d: "is_digit c1" "is_digit c2"
    and dig: "list_all is_digit cs1" "list_all is_digit cs2"
    by simp_all
  have b: "digits_value 0 cs1 < 10 ^ length cs1" "digits_value 0 cs2 < 10 ^ length cs1"
    using digits_value_bound [OF dig(1)] digits_value_bound [OF dig(2)] Cons.hyps by simp_all
  have v: "digits_value 0 (c1 # cs1) = digit_val c1 * 10 ^ length cs1 + digits_value 0 cs1"
      "digits_value 0 (c2 # cs2) = digit_val c2 * 10 ^ length cs1 + digits_value 0 cs2"
    using digits_value_split [of "digit_val c1" cs1] digits_value_split [of "digit_val c2" cs2]
      Cons.hyps by simp_all
  have lt: "(digits_value 0 (c1 # cs1) < digits_value 0 (c2 # cs2)) =
      (digit_val c1 < digit_val c2 \<or> digit_val c1 = digit_val c2 \<and>
       digits_value 0 cs1 < digits_value 0 cs2)"
    unfolding v by (rule weigh [OF b])
  have eq: "(digits_value 0 (c1 # cs1) = digits_value 0 (c2 # cs2)) =
      (digit_val c1 = digit_val c2 \<and> digits_value 0 cs1 = digits_value 0 cs2)"
    unfolding v by (rule weigh_eq [OF b])
  show ?case
    unfolding lt eq using IH digit_order [OF d] by simp
qed

lemma append_le_append: "(p @ a \<le> p @ b) = (a \<le> (b :: 'a :: linorder list))"
  by (induction p) simp_all

lemma sequential_name_split:
  assumes "sequential_name stem e"
  shows "e = stem @ drop (length stem) e" and "length (drop (length stem) e) = 10"
    and "list_all is_digit (drop (length stem) e)"
  using assms append_take_drop_id [of "length stem" e]
  by (auto simp: sequential_name_def)

lemma log_index_sequential:
  assumes "sequential_name ''log-'' e"
  shows "log_index e = Inr (of_nat (digits_value 0 (drop 4 e)))"
    and "digits_value 0 (drop 4 e) < 10 ^ 10"
proof -
  have four: "length ''log-'' = 4" by simp
  note s = sequential_name_split [OF assms, unfolded four]
  have len: "length (drop 4 e) = 10" and dig: "list_all is_digit (drop 4 e)"
    by (rule s(2), rule s(3))
  from len have "drop 4 e \<noteq> []" by auto
  with dig have "parseUInt64 (drop 4 e) = Inr (of_nat (digits_value 0 (drop 4 e)))"
    by (rule parseUInt64_digits)
  moreover have "4 \<le> length e" using assms by (simp add: sequential_name_def)
  ultimately show "log_index e = Inr (of_nat (digits_value 0 (drop 4 e)))"
    by (simp add: log_index_def substr_def)
  show "digits_value 0 (drop 4 e) < 10 ^ 10"
    using digits_value_bound [OF dig] len by simp
qed

text \<open>For sequential names the order of the names is the order of the indices.\<close>

lemma sequential_order:
  assumes "sequential_name ''log-'' e1" and "sequential_name ''log-'' e2"
    and "log_index e1 = Inr i1" and "log_index e2 = Inr i2"
  shows "(e1 \<le> e2) = (i1 \<le> i2)" and "(e1 = e2) = (i1 = i2)"
proof -
  let ?d1 = "drop 4 e1" and ?d2 = "drop 4 e2"
  have four: "length ''log-'' = 4" by simp
  note s1 = sequential_name_split [OF assms(1), unfolded four]
  note s2 = sequential_name_split [OF assms(2), unfolded four]
  have e: "e1 = ''log-'' @ ?d1" "e2 = ''log-'' @ ?d2"
    by (rule s1(1), rule s2(1))
  have len: "length ?d1 = length ?d2"
    using s1(2) s2(2) by (simp only:)
  have dig: "list_all is_digit ?d1" "list_all is_digit ?d2"
    by (rule s1(3), rule s2(3))
  have i: "unat i1 = digits_value 0 ?d1" "unat i2 = digits_value 0 ?d2"
    using log_index_sequential [OF assms(1)] log_index_sequential [OF assms(2)] assms(3,4)
    by (auto simp: unat_of_small)
  note ord = digits_order [OF len dig]
  have "(e1 \<le> e2) = (?d1 \<le> ?d2)"
    by (subst e(1), subst e(2)) (rule append_le_append)
  also have "\<dots> = (digits_value 0 ?d1 \<le> digits_value 0 ?d2)"
    using ord by (auto simp: le_less)
  finally show "(e1 \<le> e2) = (i1 \<le> i2)"
    by (simp add: word_le_nat_alt i)
  have "(e1 = e2) = (?d1 = ?d2)"
    by (subst e(1), subst e(2)) simp
  then show "(e1 = e2) = (i1 = i2)"
    using ord by (simp add: word_unat_eq_iff i)
qed

subsection \<open>Trimming the log\<close>

lemma exists_iff_key: "exists z p = (p \<in> set (map fst (nodes z)))"
  by (simp add: exists_def lookup_def map_of_eq_None_iff)

lemma child_iff_key: "(e \<in> set (children z d)) = (d @ [e] \<in> set (map fst (nodes z)))"
proof
  assume "e \<in> set (children z d)"
  then obtain k where k: "k \<in> set (map fst (nodes z))" "k \<noteq> []" "butlast k = d" "last k = e"
    by (auto simp: children_def)
  from k(2-4) have "k = d @ [e]" by (auto simp: snoc_eq_iff_butlast)
  with k(1) show "d @ [e] \<in> set (map fst (nodes z))" by simp
next
  assume "d @ [e] \<in> set (map fst (nodes z))"
  then have "d @ [e] \<in> set (filter (\<lambda>k. k \<noteq> [] \<and> butlast k = d) (map fst (nodes z)))"
    by simp
  then have "last (d @ [e]) \<in> set (children z d)"
    unfolding children_def set_map by (rule imageI)
  then show "e \<in> set (children z d)" by simp
qed

lemma child_iff_exists: "(e \<in> set (children z d)) = exists z (d @ [e])"
  by (simp add: child_iff_key exists_iff_key)

lemma children_distinct:
  assumes "unique_paths z"
  shows "distinct (children z d)"
proof -
  have "inj_on last {k :: path. k \<noteq> [] \<and> butlast k = d}"
    by (rule inj_onI) (metis (mono_tags, lifting) append_butlast_last_id mem_Collect_eq)
  then have "inj_on last (set (filter (\<lambda>k. k \<noteq> [] \<and> butlast k = d) (map fst (nodes z))))"
    by (rule inj_on_subset) auto
  then show ?thesis
    using assms by (simp add: children_def unique_paths_def distinct_map)
qed

lemma children_zxid [simp]: "children (z\<lparr>zxid := x\<rparr>) d = children z d"
  by (simp add: children_def)

lemma exists_zxid [simp]: "exists (z\<lparr>zxid := x\<rparr>) p = exists z p"
  by (simp add: exists_def)

lemma lookup_after_delete:
  "lookup (z\<lparr>nodes := AList.delete k (nodes z)\<rparr>) p = (if p = k then None else lookup z p)"
  by (simp add: lookup_def delete_conv')

lemma children_after_delete:
  "children (z\<lparr>nodes := AList.delete k (nodes z)\<rparr>) d =
     map last (removeAll k (filter (\<lambda>k. k \<noteq> [] \<and> butlast k = d) (map fst (nodes z))))"
  by (simp add: children_def delete_keys removeAll_filter_not_eq filter_filter conj_commute)

lemma no_children_after_delete:
  "children z d = [] \<Longrightarrow> children (z\<lparr>nodes := AList.delete k (nodes z)\<rparr>) d = []"
  by (simp add: children_after_delete) (simp add: children_def)

lemma min_pointer_loop_all:
  assumes "\<forall>r \<in> set rs. pointer_value z
      (zookeeper_path this @ [''replicas'', r, ''log_pointers'', replica_name this]) \<noteq> None"
  shows "min_pointer_loop this z rs m =
     Inr (Some (Min (insert m ((\<lambda>r. the (pointer_value z
        (zookeeper_path this @ [''replicas'', r, ''log_pointers'', replica_name this]))) ` set rs))))"
  using assms
proof (induction rs arbitrary: m)
  case Nil
  show ?case by simp
next
  case (Cons r rs)
  let ?v = "\<lambda>r. the (pointer_value z
        (zookeeper_path this @ [''replicas'', r, ''log_pointers'', replica_name this]))"
  from Cons.prems obtain s v where
    s: "tryGet z (zookeeper_path this @ [''replicas'', r, ''log_pointers'', replica_name this]) = Some s"
    and v: "parseUInt64 s = Inr v"
    by (auto simp: pointer_value_def split: option.splits sum.splits)
  then have rv: "?v r = v" by (simp add: pointer_value_def)
  have "Min (insert (min m v) (?v ` set rs)) = Min (insert m (insert v (?v ` set rs)))"
    by (cases "?v ` set rs = {}") (simp_all add: min.assoc)
  then show ?case
    using Cons s v rv by (simp add: insert_commute)
qed

lemma min_pointer_loop_missing:
  assumes "\<exists>r \<in> set rs.
      tryGet z (zookeeper_path this @ [''replicas'', r, ''log_pointers'', replica_name this]) = None"
  shows "min_pointer_loop this z rs m = Inr None \<or> (\<exists>e. min_pointer_loop this z rs m = Inl e)"
  using assms
proof (induction rs arbitrary: m)
  case Nil
  then show ?case by simp
next
  case (Cons r rs)
  show ?case
  proof (cases "tryGet z (zookeeper_path this @ [''replicas'', r, ''log_pointers'', replica_name this])")
    case None
    then show ?thesis by simp
  next
    case (Some s)
    with Cons.prems have rest: "\<exists>r \<in> set rs.
      tryGet z (zookeeper_path this @ [''replicas'', r, ''log_pointers'', replica_name this]) = None"
      by auto
    show ?thesis
    proof (cases "parseUInt64 s")
      case (Inl e)
      with Some show ?thesis by simp
    next
      case (Inr v)
      with Some Cons.IH [OF rest, of "min m v"] show ?thesis by simp
    qed
  qed
qed

lemma remove_old_entries_lookup:
  assumes "distinct es" and "sorted es"
    and "\<forall>e \<in> set es. sequential_name ''log-'' e \<and> exists z (replica_path this @ [''log'', e]) \<and>
           children z (replica_path this @ [''log'', e]) = []"
  shows "lookup (snd (remove_old_entries this z es m k)) p =
     (if \<exists>e i. e \<in> set es \<and> p = replica_path this @ [''log'', e] \<and>
               log_index e = Inr i \<and> i < m
      then None else lookup z p)"
  using assms
proof (induction es arbitrary: z k)
  case Nil
  show ?case by simp
next
  case (Cons e es)
  let ?lp = "\<lambda>e. replica_path this @ [''log'', e]"
  from Cons.prems(3) have seq: "sequential_name ''log-'' e"
    and ex: "exists z (?lp e)" and leaf: "children z (?lp e) = []"
    by simp_all
  from log_index_sequential(1) [OF seq] obtain i where i: "log_index e = Inr i" by blast
  show ?case
  proof (cases "m \<le> i")
    case True
    have "\<not> i' < m" if "e' \<in> set (e # es)" and "log_index e' = Inr i'" for e' i'
    proof -
      have "e \<le> e'" using that(1) Cons.prems(2) by auto
      moreover have "sequential_name ''log-'' e'" using that(1) Cons.prems(3) by auto
      ultimately have "i \<le> i'"
        using sequential_order(1) [OF seq _ i that(2)] by simp
      with True show ?thesis by simp
    qed
    then have none: "\<not> (\<exists>e' i'. e' \<in> set (e # es) \<and> p = ?lp e' \<and> log_index e' = Inr i' \<and> i' < m)"
      by blast
    have lhs: "snd (remove_old_entries this z (e # es) m k) = z"
      using i True by simp
    show ?thesis
      by (simp only: lhs if_not_P [OF none])
  next
    case False
    let ?z1 = "z\<lparr>nodes := AList.delete (?lp e) (nodes z), zxid := zxid z + 1\<rparr>"
    have rm: "remove z (?lp e) = (Inr [?lp e], ?z1)"
      using ex leaf by (rule remove_leaf)
    have later: "\<forall>e' \<in> set es. sequential_name ''log-'' e' \<and> exists ?z1 (?lp e') \<and>
           children ?z1 (?lp e') = []"
    proof
      fix e' assume e': "e' \<in> set es"
      then have "e' \<noteq> e" using Cons.prems(1) by auto
      then have "exists ?z1 (?lp e') = exists z (?lp e')"
        by (simp add: exists_def lookup_after_delete)
      moreover have "children ?z1 (?lp e') = []"
        using e' Cons.prems(3) by (simp add: no_children_after_delete)
      ultimately show "sequential_name ''log-'' e' \<and> exists ?z1 (?lp e') \<and>
           children ?z1 (?lp e') = []"
        using e' Cons.prems(3) by simp
    qed
    have IH: "lookup (snd (remove_old_entries this ?z1 es m (k + 1))) p =
       (if \<exists>e' i'. e' \<in> set es \<and> p = ?lp e' \<and> log_index e' = Inr i' \<and> i' < m
        then None else lookup ?z1 p)"
      using Cons.prems(1,2) later by (intro Cons.IH) simp_all
    have "snd (remove_old_entries this z (e # es) m k) =
          snd (remove_old_entries this ?z1 es m (k + 1))"
      using i False rm by simp
    then show ?thesis
      using IH i False by (auto simp: lookup_after_delete)
  qed
qed

text \<open>
  C1. In a coordinator with unique paths where the log of this replica is well formed and
  the nodes \<open>replicas\<close> and \<open>log\<close> exist: if every replica listed under \<open>replicas\<close> holds a
  number at \<open>log_pointers/<r>\<close>, then after \<^verbatim>\<open>clearOldLogs\<close> exactly the entries of the log
  whose index is below the least of these numbers are gone (the least is taken with the
  largest \<^verbatim>\<open>UInt64\<close>, the value the loop starts from) and every other node is as before;
  if some replica listed has no \<open>log_pointers/<r>\<close> node, the coordinator is unchanged.
\<close>

theorem clearOldLogs_trims_below_least_pointer:
  assumes "unique_paths z" and "log_well_formed z (replica_path this @ [''log''])"
    and "exists z (zookeeper_path this @ [''replicas''])"
    and "exists z (replica_path this @ [''log''])"
  shows
    "((\<forall>r \<in> set (children z (zookeeper_path this @ [''replicas''])).
         pointer_value z (zookeeper_path this @ [''replicas'', r, ''log_pointers'', replica_name this])
           \<noteq> None) \<longrightarrow>
      (\<forall>p. lookup (snd (clearOldLogs this z)) p =
         (if \<exists>e i. e \<in> set (children z (replica_path this @ [''log''])) \<and>
                   p = replica_path this @ [''log'', e] \<and> log_index e = Inr i \<and>
                   i < Min (insert (- 1)
                         ((\<lambda>r. the (pointer_value z (zookeeper_path this @
                                   [''replicas'', r, ''log_pointers'', replica_name this]))) `
                          set (children z (zookeeper_path this @ [''replicas'']))))
          then None else lookup z p))) \<and>
     ((\<exists>r \<in> set (children z (zookeeper_path this @ [''replicas''])).
         tryGet z (zookeeper_path this @ [''replicas'', r, ''log_pointers'', replica_name this]) = None)
      \<longrightarrow> snd (clearOldLogs this z) = z)"
proof (intro conjI impI allI)
  fix p
  let ?rs = "children z (zookeeper_path this @ [''replicas''])"
  let ?es = "children z (replica_path this @ [''log''])"
  let ?m = "Min (insert (- 1)
     ((\<lambda>r. the (pointer_value z (zookeeper_path this @
               [''replicas'', r, ''log_pointers'', replica_name this]))) ` set ?rs))"
  assume all: "\<forall>r \<in> set ?rs.
     pointer_value z (zookeeper_path this @ [''replicas'', r, ''log_pointers'', replica_name this])
       \<noteq> None"
  have run: "clearOldLogs this z = remove_old_entries this z (sort ?es) ?m 0"
    using assms(3,4) min_pointer_loop_all [OF all, of "- 1"]
    by (simp add: clearOldLogs_def getChildren_def)
  have "distinct (sort ?es)" "sorted (sort ?es)"
    using children_distinct [OF assms(1)] by simp_all
  moreover have "\<forall>e \<in> set (sort ?es). sequential_name ''log-'' e \<and>
      exists z (replica_path this @ [''log'', e]) \<and> children z (replica_path this @ [''log'', e]) = []"
    using assms(2) child_iff_exists [of _ z "replica_path this @ [''log'']"]
    by (auto simp: log_well_formed_def list_all_iff)
  ultimately have "lookup (snd (remove_old_entries this z (sort ?es) ?m 0)) p =
     (if \<exists>e i. e \<in> set (sort ?es) \<and> p = replica_path this @ [''log'', e] \<and>
               log_index e = Inr i \<and> i < ?m
      then None else lookup z p)"
    by (rule remove_old_entries_lookup)
  then show "lookup (snd (clearOldLogs this z)) p =
     (if \<exists>e i. e \<in> set ?es \<and> p = replica_path this @ [''log'', e] \<and>
               log_index e = Inr i \<and> i < ?m
      then None else lookup z p)"
    by (simp add: run)
next
  assume "\<exists>r \<in> set (children z (zookeeper_path this @ [''replicas''])).
     tryGet z (zookeeper_path this @ [''replicas'', r, ''log_pointers'', replica_name this]) = None"
  from min_pointer_loop_missing [OF this, of "- 1"]
  show "snd (clearOldLogs this z) = z"
    using assms(3) by (auto simp: clearOldLogs_def getChildren_def)
qed

theorem clearOldLogs_trims_below_least_pointer_witness:
  "unique_paths table_three_replicas \<and>
   log_well_formed table_three_replicas (replica_path storage_r1 @ [''log'']) \<and>
   lookup (snd (clearOldLogs storage_r1 table_three_replicas))
     [''t'', ''replicas'', ''r1'', ''log'', ''log-0000000003''] = None \<and>
   lookup (snd (clearOldLogs storage_r1 table_three_replicas))
     [''t'', ''replicas'', ''r1'', ''log'', ''log-0000000004''] = Some (persistent_node ''e4'' 20) \<and>
   lookup (snd (clearOldLogs storage_r1 table_three_replicas))
     [''t'', ''replicas'', ''r1'', ''log'', ''log-0000000005''] = Some (persistent_node ''e5'' 30) \<and>
   snd (clearOldLogs storage_r1 table_new_replica) = table_new_replica"
proof -
  have paths: "zookeeper_path storage_r1 = [''t'']" "replica_name storage_r1 = ''r1''"
    "replica_path storage_r1 = [''t'', ''replicas'', ''r1'']"
    by (simp_all add: storage_r1_def replica_path_def)
  have rs: "children table_three_replicas [''t'', ''replicas''] = [''r1'', ''r2'', ''r3'']"
    "children table_new_replica [''t'', ''replicas''] = [''r1'', ''r2'', ''r3'']"
    by (simp_all add: children_def table_three_replicas_def table_new_replica_def)
  have es: "children table_three_replicas [''t'', ''replicas'', ''r1'', ''log''] =
      [''log-0000000005'', ''log-0000000003'', ''log-0000000004'']"
    "children table_new_replica [''t'', ''replicas'', ''r1'', ''log''] =
      [''log-0000000005'', ''log-0000000003'', ''log-0000000004'']"
    by (simp_all add: children_def table_three_replicas_def table_new_replica_def)
  have u: "unique_paths table_three_replicas" "unique_paths table_new_replica"
    by (simp_all add: unique_paths_def table_three_replicas_def table_new_replica_def)
  have leaves: "children table_three_replicas [''t'', ''replicas'', ''r1'', ''log'', e] = []"
    "children table_new_replica [''t'', ''replicas'', ''r1'', ''log'', e] = []" for e
    by (simp_all add: children_def table_three_replicas_def table_new_replica_def)
  have w: "log_well_formed table_three_replicas [''t'', ''replicas'', ''r1'', ''log'']"
    "log_well_formed table_new_replica [''t'', ''replicas'', ''r1'', ''log'']"
    by (simp_all add: log_well_formed_def es leaves sequential_name_def is_digit_def)
  have ex: "exists table_three_replicas [''t'', ''replicas'']"
    "exists table_three_replicas [''t'', ''replicas'', ''r1'', ''log'']"
    "exists table_new_replica [''t'', ''replicas'']"
    "exists table_new_replica [''t'', ''replicas'', ''r1'', ''log'']"
    by (simp_all add: exists_def lookup_def table_three_replicas_def table_new_replica_def)
  have ptr: "pointer_value table_three_replicas [''t'', ''replicas'', ''r1'', ''log_pointers'', ''r1''] = Some 4"
    "pointer_value table_three_replicas [''t'', ''replicas'', ''r2'', ''log_pointers'', ''r1''] = Some 5"
    "pointer_value table_three_replicas [''t'', ''replicas'', ''r3'', ''log_pointers'', ''r1''] = Some 4"
    by (simp_all add: pointer_value_def tryGet_def lookup_def table_three_replicas_def
        parseUInt64_def is_digit_def digit_val_def persistent_node_def)
  have missing: "tryGet table_new_replica [''t'', ''replicas'', ''r3'', ''log_pointers'', ''r1''] = None"
    by (simp add: tryGet_def lookup_def table_new_replica_def table_three_replicas_def)
  have idx: "log_index ''log-0000000003'' = Inr 3" "log_index ''log-0000000004'' = Inr 4"
    "log_index ''log-0000000005'' = Inr 5"
    by (simp_all add: log_index_def substr_def parseUInt64_def is_digit_def digit_val_def)
  have before: "lookup table_three_replicas [''t'', ''replicas'', ''r1'', ''log'', ''log-0000000004'']
      = Some (persistent_node ''e4'' 20)"
    "lookup table_three_replicas [''t'', ''replicas'', ''r1'', ''log'', ''log-0000000005'']
      = Some (persistent_node ''e5'' 30)"
    by (simp_all add: lookup_def table_three_replicas_def)
  have least: "Min {- 1, 4, 5 :: UInt64} = 4"
    by simp
  note first = clearOldLogs_trims_below_least_pointer
    [of table_three_replicas storage_r1, unfolded paths append.simps, OF u(1) w(1) ex(1,2),
     THEN conjunct1]
  note second = clearOldLogs_trims_below_least_pointer
    [of table_new_replica storage_r1, unfolded paths append.simps, OF u(2) w(2) ex(3,4),
     THEN conjunct2]
  have all: "\<forall>r\<in>set (children table_three_replicas [''t'', ''replicas'']).
     pointer_value table_three_replicas [''t'', ''replicas'', r, ''log_pointers'', ''r1''] \<noteq> None"
    by (simp add: rs ptr)
  have some: "\<exists>r\<in>set (children table_new_replica [''t'', ''replicas'']).
     tryGet table_new_replica [''t'', ''replicas'', r, ''log_pointers'', ''r1''] = None"
    by (simp add: rs missing)
  note after = first [THEN mp, OF all, THEN spec]
  show ?thesis
    using after [of "[''t'', ''replicas'', ''r1'', ''log'', ''log-0000000003'']"]
      after [of "[''t'', ''replicas'', ''r1'', ''log'', ''log-0000000004'']"]
      after [of "[''t'', ''replicas'', ''r1'', ''log'', ''log-0000000005'']"]
      second [THEN mp, OF some] u(1) w(1)
    by (simp add: paths rs es ptr idx before least insert_commute)
qed

subsection \<open>Pulling the logs into the queue\<close>

lemma digit_char_digit:
  assumes "d < 10"
  shows "is_digit (digit_char d)" and "digit_val (digit_char d) = d"
proof -
  from assms consider "d = 0" | "d = 1" | "d = 2" | "d = 3" | "d = 4" | "d = 5" | "d = 6"
    | "d = 7" | "d = 8" | "d = 9"
    by atomize_elim arith
  then have "is_digit (digit_char d) \<and> digit_val (digit_char d) = d"
    by cases (simp_all add: digit_char_def is_digit_def digit_val_def)
  then show "is_digit (digit_char d)" and "digit_val (digit_char d) = d" by simp_all
qed

lemma digits_value_snoc: "digits_value a (ds @ [c]) = 10 * digits_value a ds + digit_val c"
  by (induction ds arbitrary: a) simp_all

lemma toString_digits: "list_all is_digit (toString n) \<and> toString n \<noteq> [] \<and> digits_value 0 (toString n) = n"
proof (induction n rule: toString.induct)
  case (1 n)
  show ?case
  proof (cases "n < 10")
    case True
    then show ?thesis
      by (subst (1 2 3) toString.simps) (simp add: digit_char_digit)
  next
    case False
    have m: "n mod 10 < 10" by simp
    from False 1 have IH: "list_all is_digit (toString (n div 10))"
        "digits_value 0 (toString (n div 10)) = n div 10"
      by simp_all
    from False have eq: "toString n = toString (n div 10) @ [digit_char (n mod 10)]"
      by (subst toString.simps) simp
    show ?thesis
      unfolding eq using IH by (simp add: digits_value_snoc digit_char_digit [OF m])
  qed
qed

lemma parseUInt64_toString: "parseUInt64 (toString (unat (w :: UInt64))) = Inr w"
  using parseUInt64_digits [of "toString (unat w)"] toString_digits [of "unat w"] by simp

lemma digits_value_zeros: "digits_value 0 (replicate k (CHR ''0'') @ ds) = digits_value 0 ds"
  by (induction k) (simp_all add: digit_val_def)

lemma pad10_value: "digits_value 0 (pad10 ds) = digits_value 0 ds"
  by (simp add: pad10_def digits_value_zeros)

lemma index_small:
  assumes "sequential_name ''log-'' (''log-'' @ pad10 (toString n))"
  shows "n < 10 ^ 10"
proof -
  from assms have len: "length (pad10 (toString n)) = 10"
    and dig: "list_all is_digit (pad10 (toString n))"
    by (simp_all add: sequential_name_def)
  have "digits_value 0 (pad10 (toString n)) < 10 ^ length (pad10 (toString n))"
    using dig by (rule digits_value_bound)
  then show ?thesis
    using toString_digits [of n] by (simp only: len pad10_value)
qed

lemma log_index_of_name:
  assumes "sequential_name ''log-'' (''log-'' @ pad10 (toString (unat (i :: UInt64))))"
  shows "log_index (''log-'' @ pad10 (toString (unat i))) = Inr i"
  using log_index_sequential(1) [OF assms] toString_digits [of "unat i"]
  by (simp add: pad10_value)

lemma lookup_update:
  "lookup (z\<lparr>nodes := AList.update k v (nodes z)\<rparr>) p = (if p = k then Some v else lookup z p)"
  by (simp add: lookup_def update_conv')

lemma multi_fails_unchanged: "multi z ops = (Inl e, z1) \<Longrightarrow> z1 = z"
  by (auto simp: multi_def tryMulti_def split: sum.splits prod.splits)

lemma pointer_value_cong:
  "lookup z1 p = lookup z p \<Longrightarrow> pointer_value z1 p = pointer_value z p"
  by (simp add: pointer_value_def tryGet_def)

lemma pointer_value_written:
  "tryGet z p = Some (toString (unat (i :: UInt64))) \<Longrightarrow> pointer_value z p = Some i"
  by (simp add: pointer_value_def parseUInt64_toString)

lemma multi_pull_ops_lookup:
  assumes "multi z (pull_ops this it) = (Inr created, z1)"
    and "p \<noteq> replica_path this @ [''log_pointers'', replica it]"
    and "butlast p \<noteq> replica_path this @ [''queue'']"
    and "p \<noteq> replica_path this @ [''queue'']"
  shows "lookup z1 p = lookup z p"
  using assms
  by (auto simp: multi_def tryMulti_def pull_ops_def Let_def lookup_def update_conv' butlast_append
      split: sum.splits prod.splits option.splits if_splits)

lemma multi_pull_ops_pointer:
  assumes "multi z (pull_ops this it) = (Inr created, z1)"
  shows "tryGet z1 (replica_path this @ [''log_pointers'', replica it]) =
           Some (toString (unat (index it + 1)))"
  using assms
  by (auto simp: multi_def tryMulti_def pull_ops_def Let_def lookup_def update_conv' tryGet_def
      split: sum.splits prod.splits option.splits if_splits)

lemma create_lookup:
  assumes "create z p v Persistent = (Inr created, z')" and "q \<noteq> p" and "q \<noteq> butlast p"
  shows "lookup z' q = lookup z q"
  using assms
  by (auto simp: create_def multi_def tryMulti_def Let_def lookup_def update_conv' created_name_def
      split: sum.splits prod.splits option.splits if_splits)

lemma create_value:
  assumes "create z p v Persistent = (Inr created, z')"
  shows "tryGet z' p = Some v"
  using assms
  by (auto simp: create_def multi_def tryMulti_def Let_def lookup_def update_conv' created_name_def tryGet_def
      split: sum.splits prod.splits option.splits if_splits)

lemma create_fails_unchanged: "create z p v mode = (Inl e, z') \<Longrightarrow> z' = z"
  unfolding create_def by (rule multi_fails_unchanged)

lemma multi_pull_ops_created:
  assumes "multi z (pull_ops this it) = (Inr created, z1)"
  shows "\<exists>k. last (hd created) = ''queue-'' @ pad10 (toString k) \<and>
           tryGet z1 (replica_path this @ [''queue'', ''queue-'' @ pad10 (toString k)]) =
             Some (entry_str it)"
proof -
  from assms obtain parent where
    parent: "lookup z (replica_path this @ [''queue'']) = Some parent"
    by (auto simp: multi_def tryMulti_def pull_ops_def Let_def butlast_append
        split: sum.splits prod.splits option.splits if_splits)
  let ?k = "next_seq parent"
  have nm: "created_name z (replica_path this @ [''queue'', ''queue-'']) PersistentSequential =
      ''queue-'' @ pad10 (toString ?k)"
    using parent by (simp add: created_name_def butlast_append)
  have "last (hd created) = ''queue-'' @ pad10 (toString ?k) \<and>
      tryGet z1 (replica_path this @ [''queue'', ''queue-'' @ pad10 (toString ?k)]) =
        Some (entry_str it)"
    using assms parent
    by (auto simp: multi_def tryMulti_def pull_ops_def Let_def nm lookup_def update_conv'
        tryGet_def butlast_append
        split: sum.splits prod.splits option.splits if_splits)
  then show ?thesis by blast
qed

lemma multi_pull_ops_keeps_queue:
  assumes "multi z (pull_ops this it) = (Inr created, z1)"
    and "lookup z (replica_path this @ [''queue'', nm]) = Some n"
  shows "lookup z1 (replica_path this @ [''queue'', nm]) = Some n"
  using assms
  by (auto simp: multi_def tryMulti_def pull_ops_def Let_def lookup_def update_conv'
      butlast_append exists_def
      split: sum.splits prod.splits option.splits if_splits)

lemma log_entry_of_path: "log_entry_of zp (zp @ [''replicas'', r, ''log'', e]) = Some (r, e)"
  by (simp add: log_entry_of_def nth_append)

lemma logs_well_formed_names:
  assumes "logs_well_formed z zp" and "lookup z (zp @ [''replicas'', r, ''log'', e]) = Some n"
  shows "sequential_name ''log-'' e"
proof -
  from assms(2) have "(zp @ [''replicas'', r, ''log'', e], n) \<in> set (nodes z)"
    unfolding lookup_def by (rule map_of_SomeD)
  with assms(1) show ?thesis
    by (auto simp: logs_well_formed_def log_names_sequential_def list_all_iff log_entry_of_path)
qed

lemma logs_well_formed_order:
  assumes "logs_well_formed z zp"
    and "lookup z (zp @ [''replicas'', r, ''log'', e]) = Some n"
    and "lookup z (zp @ [''replicas'', r, ''log'', e']) = Some n'"
    and "e \<le> e'"
  shows "czxid n \<le> czxid n'"
proof -
  from assms(2) have 1: "(zp @ [''replicas'', r, ''log'', e], n) \<in> set (nodes z)"
    unfolding lookup_def by (rule map_of_SomeD)
  from assms(3) have 2: "(zp @ [''replicas'', r, ''log'', e'], n') \<in> set (nodes z)"
    unfolding lookup_def by (rule map_of_SomeD)
  from assms(1) have "logs_in_creation_order z zp" by (simp add: logs_well_formed_def)
  with 1 2 assms(4) show ?thesis
    by (fastforce simp: logs_in_creation_order_def list_all_iff log_entry_of_path)
qed

lemma readEntry_fixed:
  "(readEntry z zp it = Some it) =
     (\<exists>n. lookup z (log_entry_path zp (replica it) (index it)) = Some n \<and>
           entry_str it = node_value n \<and> timestamp it = czxid n)"
proof
  assume "readEntry z zp it = Some it"
  then obtain n where n: "lookup z (log_entry_path zp (replica it) (index it)) = Some n"
    and eq: "it\<lparr>entry_str := node_value n, timestamp := czxid n\<rparr> = it"
    by (auto simp: readEntry_def split: option.splits)
  from eq have "entry_str (it\<lparr>entry_str := node_value n, timestamp := czxid n\<rparr>) = entry_str it"
    and "timestamp (it\<lparr>entry_str := node_value n, timestamp := czxid n\<rparr>) = timestamp it"
    by simp_all
  then have "entry_str it = node_value n \<and> timestamp it = czxid n" by simp
  with n show "\<exists>n. lookup z (log_entry_path zp (replica it) (index it)) = Some n \<and>
           entry_str it = node_value n \<and> timestamp it = czxid n"
    by blast
next
  assume "\<exists>n. lookup z (log_entry_path zp (replica it) (index it)) = Some n \<and>
           entry_str it = node_value n \<and> timestamp it = czxid n"
  then show "readEntry z zp it = Some it"
    by (auto simp: readEntry_def)
qed

lemma readEntry_result:
  assumes "readEntry z zp it = Some it'"
  shows "readEntry z zp it' = Some it'" and "replica it' = replica it" and "index it' = index it"
  using assms by (auto simp: readEntry_def split: option.splits)

lemma readEntry_cong:
  assumes "\<And>r e. lookup z1 (zp @ [''replicas'', r, ''log'', e]) =
                  lookup z (zp @ [''replicas'', r, ''log'', e])"
  shows "readEntry z1 zp it = readEntry z zp it"
  using assms by (simp add: readEntry_def log_entry_path_def)

lemma word_succ_small:
  assumes "unat (i :: UInt64) < 10 ^ 10"
  shows "unat (i + 1) = unat i + 1" and "i \<le> i + 1"
proof -
  have "i \<noteq> - 1"
  proof
    assume "i = - 1"
    then have "unat i = 2 ^ 64 - 1"
      by (simp add: unsigned_minus_1_eq_mask mask_eq_exp_minus_1)
    with assms show False by simp
  qed
  with order_refl have "unat (i + 1) = Suc (unat i)" by (rule unat_inc)
  then show "unat (i + 1) = unat i + 1" by simp
  then show "i \<le> i + 1" by (simp add: word_le_nat_alt)
qed

lemma entry_in_log:
  assumes "logs_well_formed z zp" and "lookup z (log_entry_path zp r i) = Some n"
  shows "unat i < 10 ^ 10"
  using logs_well_formed_names [OF assms(1)] assms(2) index_small
  unfolding log_entry_path_def by blast

lemma next_entry_later:
  assumes wf: "logs_well_formed z zp"
    and a: "lookup z (log_entry_path zp r i) = Some n"
    and b: "lookup z (log_entry_path zp r (i + 1)) = Some n'"
  shows "czxid n \<le> czxid n'"
proof -
  let ?e = "''log-'' @ pad10 (toString (unat i))"
  let ?e' = "''log-'' @ pad10 (toString (unat (i + 1)))"
  have s: "sequential_name ''log-'' ?e" "sequential_name ''log-'' ?e'"
    using logs_well_formed_names [OF wf] a b unfolding log_entry_path_def by blast+
  have i: "log_index ?e = Inr i" "log_index ?e' = Inr (i + 1)"
    using s by (simp_all only: log_index_of_name)
  have "i \<le> i + 1"
    using entry_in_log [OF wf a] by (rule word_succ_small)
  then have "?e \<le> ?e'"
    using sequential_order(1) [OF s i] by simp
  with wf a b show ?thesis
    unfolding log_entry_path_def by (rule logs_well_formed_order)
qed

lemma pointer_advanced_refl: "pointer_advanced least v v"
  by (simp add: pointer_advanced_def split: option.splits)

lemma pointer_advanced_trans:
  assumes "pointer_advanced least u v" and "pointer_advanced least v w"
  shows "pointer_advanced least u w"
  using assms by (auto simp: pointer_advanced_def split: option.splits)

lemma pull_entry_fails: "pull_entry this z it = (Inl e, z1) \<Longrightarrow> z1 = z"
  by (auto simp: pull_entry_def Let_def dest: multi_fails_unchanged
      split: sum.splits prod.splits)

lemma pull_entry_succeeds:
  assumes "pull_entry this z it = (Inr this1, z1)"
  shows "\<exists>created. multi z (pull_ops this it) = (Inr created, z1)"
    and "zookeeper_path this1 = zookeeper_path this"
    and "replica_path this1 = replica_path this"
  using assms
  by (auto simp: pull_entry_def Let_def addResultToVirtualParts_def replica_path_def
      split: sum.splits prod.splits)

lemma pull_entry_commits:
  assumes "pull_entry this z it = (Inr this1, z1)"
  shows "\<exists>entry k. queue this1 = queue this @ [entry] \<and> entry_of it entry \<and>
           znode_name entry = ''queue-'' @ pad10 (toString k) \<and>
           tryGet z1 (replica_path this @ [''queue'', znode_name entry]) = Some (entry_str it)"
proof -
  from assms obtain parsed created where
    p: "LogEntry_parse (entry_str it) = Inr parsed"
    and m: "multi z (pull_ops this it) = (Inr created, z1)"
    and q: "queue this1 = queue this @ [parsed\<lparr>znode_name := last (hd created)\<rparr>]"
    by (auto simp: pull_entry_def Let_def addResultToVirtualParts_def
        split: sum.splits prod.splits)
  from multi_pull_ops_created [OF m] obtain k where
    k: "last (hd created) = ''queue-'' @ pad10 (toString k)"
      "tryGet z1 (replica_path this @ [''queue'', ''queue-'' @ pad10 (toString k)]) =
         Some (entry_str it)"
    by blast
  let ?entry = "parsed\<lparr>znode_name := last (hd created)\<rparr>"
  have "entry_of it ?entry" using p by (simp add: entry_of_def)
  moreover have "znode_name ?entry = ''queue-'' @ pad10 (toString k)" using k(1) by simp
  moreover have "tryGet z1 (replica_path this @ [''queue'', znode_name ?entry]) =
      Some (entry_str it)"
    using k by simp
  ultimately show ?thesis using q by blast
qed

lemma pull_entry_keeps_queue:
  assumes "pull_entry this z it = (Inr this1, z1)"
    and "lookup z (replica_path this @ [''queue'', nm]) = Some n"
  shows "lookup z1 (replica_path this @ [''queue'', nm]) = Some n"
proof -
  from pull_entry_succeeds(1) [OF assms(1)] obtain created where
    "multi z (pull_ops this it) = (Inr created, z1)" ..
  then show ?thesis using assms(2) by (rule multi_pull_ops_keeps_queue)
qed

lemma pull_entry_step:
  assumes pe: "pull_entry this z it = (Inr this1, z1)"
  shows "lookup z1 (zookeeper_path this @ [''replicas'', r, ''log'', e]) =
           lookup z (zookeeper_path this @ [''replicas'', r, ''log'', e])"
    and "pointer_value z1 (replica_path this @ [''log_pointers'', replica it]) = Some (index it + 1)"
    and "p \<noteq> replica it \<Longrightarrow>
           pointer_value z1 (replica_path this @ [''log_pointers'', p]) =
           pointer_value z (replica_path this @ [''log_pointers'', p])"
proof -
  from pull_entry_succeeds(1) [OF pe] obtain created where
    m: "multi z (pull_ops this it) = (Inr created, z1)" ..
  show "lookup z1 (zookeeper_path this @ [''replicas'', r, ''log'', e]) =
           lookup z (zookeeper_path this @ [''replicas'', r, ''log'', e])"
    by (rule multi_pull_ops_lookup [OF m]) (simp_all add: replica_path_def butlast_append)
  show "pointer_value z1 (replica_path this @ [''log_pointers'', replica it]) = Some (index it + 1)"
    using multi_pull_ops_pointer [OF m] by (rule pointer_value_written)
  assume "p \<noteq> replica it"
  then have "lookup z1 (replica_path this @ [''log_pointers'', p]) =
      lookup z (replica_path this @ [''log_pointers'', p])"
    by (intro multi_pull_ops_lookup [OF m]) (simp_all add: butlast_append)
  then show "pointer_value z1 (replica_path this @ [''log_pointers'', p]) =
           pointer_value z (replica_path this @ [''log_pointers'', p])"
    by (rule pointer_value_cong)
qed

lemma pq_top_least:
  assumes "pq \<noteq> []"
  shows "pq_top pq \<in> set pq" and "x \<in> set pq \<Longrightarrow> timestamp (pq_top pq) \<le> timestamp x"
proof -
  show "pq_top pq \<in> set pq"
    using assms unfolding pq_top_def by (rule arg_min_list_in)
  assume "x \<in> set pq"
  then show "timestamp (pq_top pq) \<le> timestamp x"
    using f_arg_min_list_f [OF assms, of timestamp] by (simp add: pq_top_def)
qed

lemma drain_total:
  fixes z0 :: coordinator and zp :: path and least :: "string \<Rightarrow> UInt64"
  assumes wf: "logs_well_formed z0 zp"
  shows "zookeeper_path this = zp \<Longrightarrow>
     (\<forall>r e. lookup z (zp @ [''replicas'', r, ''log'', e]) =
            lookup z0 (zp @ [''replicas'', r, ''log'', e])) \<Longrightarrow>
     (\<forall>it\<in>set pq. readEntry z zp it = Some it) \<Longrightarrow>
     distinct (map replica pq) \<Longrightarrow>
     (\<forall>it\<in>set pq. pointer_value z (replica_path this @ [''log_pointers'', replica it]) =
                      Some (index it)) \<Longrightarrow>
     \<exists>result this' z' pulled.
        drain this z pq count = Some (result, this', z') \<and>
        pull_entries this z pulled = (Inr this', z') \<and>
        sorted (map timestamp pulled) \<and>
        (\<forall>it\<in>set pulled. (\<exists>x\<in>set pq. timestamp x \<le> timestamp it) \<and>
                          readEntry z0 zp it = Some it) \<and>
        (\<exists>entries. queue this' = queue this @ entries \<and>
           list_all2 (\<lambda>it entry. entry_of it entry \<and>
                (\<exists>k. znode_name entry = ''queue-'' @ pad10 (toString k)) \<and>
                tryGet z' (replica_path this @ [''queue'', znode_name entry]) = Some (entry_str it))
             pulled entries) \<and>
        (\<forall>nm n. lookup z (replica_path this @ [''queue'', nm]) = Some n \<longrightarrow>
                lookup z' (replica_path this @ [''queue'', nm]) = Some n) \<and>
        (\<forall>it\<in>set pulled. \<exists>v. pointer_value z' (replica_path this @ [''log_pointers'', replica it]) =
                                  Some v \<and> index it < v) \<and>
        (\<forall>p. pointer_advanced (least p)
               (pointer_value z (replica_path this @ [''log_pointers'', p]))
               (pointer_value z' (replica_path this @ [''log_pointers'', p])))"
proof (induction "sum_list (map (\<lambda>it. 10 ^ 10 - unat (index it)) pq)"
    arbitrary: this z pq count rule: less_induct)
  case less
  let ?f = "\<lambda>it :: LogIterator. (10 :: nat) ^ 10 - unat (index it)"
  note zp = less.prems(1) and agree = less.prems(2) and rd = less.prems(3)
    and dist = less.prems(4) and ptr = less.prems(5)
  show ?case
  proof (cases "pq = []")
    case True
    have "drain this z pq count = Some (Inr count, this, z)"
      using True by (subst drain.simps) simp
    moreover have "pull_entries this z [] = (Inr this, z)" by simp
    moreover have "sorted (map timestamp [])" by simp
    moreover have "\<forall>it\<in>set []. (\<exists>x\<in>set pq. timestamp x \<le> timestamp it) \<and> readEntry z0 zp it = Some it"
      by simp
    moreover have "\<forall>p. pointer_advanced (least p)
               (pointer_value z (replica_path this @ [''log_pointers'', p]))
               (pointer_value z (replica_path this @ [''log_pointers'', p]))"
      by (simp add: pointer_advanced_refl)
    moreover have "\<exists>entries. queue this = queue this @ entries \<and>
           list_all2 (\<lambda>it entry. entry_of it entry \<and>
                (\<exists>k. znode_name entry = ''queue-'' @ pad10 (toString k)) \<and>
                tryGet z (replica_path this @ [''queue'', znode_name entry]) = Some (entry_str it))
             [] entries"
          by simp
        moreover have "\<forall>nm n. lookup z (replica_path this @ [''queue'', nm]) = Some n \<longrightarrow>
                lookup z (replica_path this @ [''queue'', nm]) = Some n"
          by simp
        moreover have "\<forall>it\<in>set []. \<exists>v. pointer_value z
            (replica_path this @ [''log_pointers'', replica it]) = Some v \<and> index it < v"
          by simp
        ultimately show ?thesis by blast
  next
    case False
    define it where "it = pq_top pq"
    define pq1 where "pq1 = pq_pop pq"
    have it_in: "it \<in> set pq" unfolding it_def using False by (rule pq_top_least)
    have it_min: "\<And>x. x \<in> set pq \<Longrightarrow> timestamp it \<le> timestamp x"
      unfolding it_def using False by (rule pq_top_least)
    from dist have dpq: "distinct pq" by (simp add: distinct_map)
    have set1: "set pq1 = set pq - {it}"
      using dpq by (simp add: pq1_def pq_pop_def it_def)
    have other: "\<And>x. x \<in> set pq1 \<Longrightarrow> replica x \<noteq> replica it"
    proof
      fix x assume x: "x \<in> set pq1" and eq: "replica x = replica it"
      from dist have "inj_on replica (set pq)" by (simp add: distinct_map)
      with x eq it_in set1 show False by (auto dest: inj_onD)
    qed
    from rd it_in have rit: "readEntry z zp it = Some it" by blast
    then obtain n where n: "lookup z (log_entry_path zp (replica it) (index it)) = Some n"
      and tn: "timestamp it = czxid n"
      unfolding readEntry_fixed by blast
    have n0: "lookup z0 (log_entry_path zp (replica it) (index it)) = Some n"
      using n agree unfolding log_entry_path_def by simp
    have small: "unat (index it) < 10 ^ 10"
      using wf n0 by (rule entry_in_log)
    have rit0: "readEntry z0 zp it = Some it"
      using rit readEntry_cong [of z zp z0 it] agree by simp
    show ?thesis
    proof (cases "pull_entry this z it")
      case (Pair res z1)
      show ?thesis
      proof (cases res)
        case (Inl e)
        with Pair have pe: "pull_entry this z it = (Inl e, z1)" by simp
        then have "z1 = z" by (rule pull_entry_fails)
        with pe have "drain this z pq count = Some (Inl e, this, z)"
          using False by (subst drain.simps) (simp add: Let_def it_def)
        moreover have "pull_entries this z [] = (Inr this, z)" by simp
        moreover have "sorted (map timestamp [])" by simp
        moreover have "\<forall>it\<in>set []. (\<exists>x\<in>set pq. timestamp x \<le> timestamp it) \<and> readEntry z0 zp it = Some it"
          by simp
        moreover have "\<forall>p. pointer_advanced (least p)
               (pointer_value z (replica_path this @ [''log_pointers'', p]))
               (pointer_value z (replica_path this @ [''log_pointers'', p]))"
          by (simp add: pointer_advanced_refl)
        moreover have "\<exists>entries. queue this = queue this @ entries \<and>
           list_all2 (\<lambda>it entry. entry_of it entry \<and>
                (\<exists>k. znode_name entry = ''queue-'' @ pad10 (toString k)) \<and>
                tryGet z (replica_path this @ [''queue'', znode_name entry]) = Some (entry_str it))
             [] entries"
          by simp
        moreover have "\<forall>nm n. lookup z (replica_path this @ [''queue'', nm]) = Some n \<longrightarrow>
                lookup z (replica_path this @ [''queue'', nm]) = Some n"
          by simp
        moreover have "\<forall>it\<in>set []. \<exists>v. pointer_value z
            (replica_path this @ [''log_pointers'', replica it]) = Some v \<and> index it < v"
          by simp
        ultimately show ?thesis by blast
      next
        case (Inr this1)
        with Pair have pe: "pull_entry this z it = (Inr this1, z1)" by simp
        note step = pull_entry_step [OF pe, unfolded zp]
        have zp1: "zookeeper_path this1 = zp"
          using pull_entry_succeeds(2) [OF pe] zp by simp
        have rp1: "replica_path this1 = replica_path this"
          by (rule pull_entry_succeeds(3) [OF pe])
        have agree1: "\<forall>r e. lookup z1 (zp @ [''replicas'', r, ''log'', e]) =
            lookup z0 (zp @ [''replicas'', r, ''log'', e])"
          using step(1) agree by simp
        define new where "new =
          (case readEntry z1 zp (it\<lparr>index := index it + 1\<rparr>) of None \<Rightarrow> [] | Some it2 \<Rightarrow> [it2])"
        have dr: "drain this z pq count = drain this1 z1 (pq1 @ new) (count + 1)"
          using False pe zp
          by (subst drain.simps)
             (simp add: Let_def it_def pq1_def new_def pq_push_def split: option.splits)
        have new: "readEntry z1 zp x = Some x \<and> replica x = replica it \<and>
            index x = index it + 1 \<and> timestamp it \<le> timestamp x" if "x \<in> set new" for x
        proof -
          from that have r: "readEntry z1 zp (it\<lparr>index := index it + 1\<rparr>) = Some x"
            by (auto simp: new_def split: option.splits)
          note res = readEntry_result [OF r]
          from res have x: "readEntry z1 zp x = Some x" "replica x = replica it"
              "index x = index it + 1"
            by simp_all
          from x(1) obtain n' where n': "lookup z1 (log_entry_path zp (replica x) (index x)) = Some n'"
            and tn': "timestamp x = czxid n'"
            unfolding readEntry_fixed by blast
          have "lookup z0 (log_entry_path zp (replica it) (index it + 1)) = Some n'"
            using n' agree1 x(2,3) unfolding log_entry_path_def by simp
          with wf n0 have "czxid n \<le> czxid n'" by (rule next_entry_later)
          with x tn tn' show ?thesis by simp
        qed
        have len_new: "length new \<le> 1"
          by (simp add: new_def split: option.splits)
        have sum_new: "sum_list (map ?f new) < ?f it"
        proof (cases new)
          case Nil
          with small show ?thesis by simp
        next
          case (Cons x xs)
          with len_new have xs: "xs = []" by simp
          from Cons have "x \<in> set new" by simp
          then have "index x = index it + 1" using new by blast
          then have "unat (index x) = unat (index it) + 1"
            using word_succ_small(1) [OF small] by simp
          with small show ?thesis unfolding Cons xs by simp
        qed
        have "sum_list (map ?f pq) = ?f it + sum_list (map ?f pq1)"
          unfolding pq1_def pq_pop_def it_def [symmetric]
          using it_in by (rule sum_list_map_remove1)
        with sum_new have less: "sum_list (map ?f (pq1 @ new)) < sum_list (map ?f pq)"
          by simp
        have rd': "\<forall>x\<in>set (pq1 @ new). readEntry z1 zp x = Some x"
        proof
          fix x assume "x \<in> set (pq1 @ new)"
          then consider "x \<in> set pq1" | "x \<in> set new" by auto
          then show "readEntry z1 zp x = Some x"
          proof cases
            case 1
            then have "readEntry z zp x = Some x" using rd set1 by blast
            moreover have "readEntry z1 zp x = readEntry z zp x"
              by (rule readEntry_cong) (simp add: step(1))
            ultimately show ?thesis by simp
          next
            case 2
            then show ?thesis using new by blast
          qed
        qed
        have dist': "distinct (map replica (pq1 @ new))"
        proof -
          have "inj_on replica (set pq)" and "distinct pq"
            using dist by (simp_all add: distinct_map)
          then have "inj_on replica (set pq1)" and "distinct pq1"
            unfolding pq1_def pq_pop_def
            by (auto intro: inj_on_diff)
          then have "distinct (map replica pq1)"
            by (simp add: distinct_map)
          moreover have "distinct (map replica new)"
            using len_new by (cases new) simp_all
          moreover have "replica x \<noteq> replica y" if "x \<in> set pq1" and "y \<in> set new" for x y
            using other [OF that(1)] new [OF that(2)] by simp
          then have "replica ` set pq1 \<inter> replica ` set new = {}"
            by blast
          ultimately show ?thesis by simp
        qed
        have ptr': "\<forall>x\<in>set (pq1 @ new).
            pointer_value z1 (replica_path this1 @ [''log_pointers'', replica x]) = Some (index x)"
        proof
          fix x assume "x \<in> set (pq1 @ new)"
          then consider "x \<in> set pq1" | "x \<in> set new" by auto
          then show "pointer_value z1 (replica_path this1 @ [''log_pointers'', replica x]) =
              Some (index x)"
          proof cases
            case 1
            then have "pointer_value z (replica_path this @ [''log_pointers'', replica x]) =
                Some (index x)"
              using ptr set1 by blast
            with step(3) [OF other [OF 1]] show ?thesis by (simp add: rp1)
          next
            case 2
            then have "replica x = replica it" "index x = index it + 1" using new by blast+
            with step(2) show ?thesis by (simp add: rp1)
          qed
        qed
        from less.hyps [OF less zp1 agree1 rd' dist' ptr', of "count + 1"]
        obtain result this' z' pulled where
          d: "drain this1 z1 (pq1 @ new) (count + 1) = Some (result, this', z')"
          and pes: "pull_entries this1 z1 pulled = (Inr this', z')"
          and srt: "sorted (map timestamp pulled)"
          and low: "\<forall>x\<in>set pulled. (\<exists>y\<in>set (pq1 @ new). timestamp y \<le> timestamp x) \<and>
                      readEntry z0 zp x = Some x"
          and adv: "\<forall>p. pointer_advanced (least p)
               (pointer_value z1 (replica_path this @ [''log_pointers'', p]))
               (pointer_value z' (replica_path this @ [''log_pointers'', p]))"
          and ents: "\<exists>entries. queue this' = queue this1 @ entries \<and>
           list_all2 (\<lambda>it entry. entry_of it entry \<and>
                (\<exists>k. znode_name entry = ''queue-'' @ pad10 (toString k)) \<and>
                tryGet z' (replica_path this @ [''queue'', znode_name entry]) = Some (entry_str it))
             pulled entries"
          and keep: "\<forall>nm n. lookup z1 (replica_path this @ [''queue'', nm]) = Some n \<longrightarrow>
                lookup z' (replica_path this @ [''queue'', nm]) = Some n"
          and past: "\<forall>x\<in>set pulled. \<exists>v. pointer_value z'
              (replica_path this @ [''log_pointers'', replica x]) = Some v \<and> index x < v"
          unfolding rp1 by blast
        have above: "timestamp it \<le> timestamp x" if "x \<in> set pulled" for x
        proof -
          from low that obtain y where y: "y \<in> set (pq1 @ new)" "timestamp y \<le> timestamp x"
            by blast
          from y(1) have "timestamp it \<le> timestamp y"
            using it_min set1 new by auto
          with y(2) show ?thesis by simp
        qed
        have 1: "drain this z pq count = Some (result, this', z')"
          using dr d by simp
        have 2: "pull_entries this z (it # pulled) = (Inr this', z')"
          using pe pes by simp
        have 3: "sorted (map timestamp (it # pulled))"
          using srt above by simp
        have 4: "\<forall>x\<in>set (it # pulled). (\<exists>y\<in>set pq. timestamp y \<le> timestamp x) \<and>
                      readEntry z0 zp x = Some x"
          using above low rit0 it_in by auto
        have 5: "\<forall>p. pointer_advanced (least p)
               (pointer_value z (replica_path this @ [''log_pointers'', p]))
               (pointer_value z' (replica_path this @ [''log_pointers'', p]))"
        proof
          fix p
          have "pointer_advanced (least p)
               (pointer_value z (replica_path this @ [''log_pointers'', p]))
               (pointer_value z1 (replica_path this @ [''log_pointers'', p]))"
          proof (cases "p = replica it")
            case True
            have "pointer_value z (replica_path this @ [''log_pointers'', replica it]) =
                Some (index it)"
              using ptr it_in by blast
            with step(2) word_succ_small(2) [OF small] show ?thesis
              unfolding True by (simp add: pointer_advanced_def)
          next
            case False
            then show ?thesis
              using step(3) by (simp add: pointer_advanced_refl)
          qed
          moreover have "pointer_advanced (least p)
               (pointer_value z1 (replica_path this @ [''log_pointers'', p]))
               (pointer_value z' (replica_path this @ [''log_pointers'', p]))"
            using adv by blast
          ultimately show "pointer_advanced (least p)
               (pointer_value z (replica_path this @ [''log_pointers'', p]))
               (pointer_value z' (replica_path this @ [''log_pointers'', p]))"
            by (rule pointer_advanced_trans)
        qed
        have 6: "\<exists>entries. queue this' = queue this @ entries \<and>
           list_all2 (\<lambda>it entry. entry_of it entry \<and>
                (\<exists>k. znode_name entry = ''queue-'' @ pad10 (toString k)) \<and>
                tryGet z' (replica_path this @ [''queue'', znode_name entry]) = Some (entry_str it))
             (it # pulled) entries"
        proof -
          from pull_entry_commits [OF pe] obtain entry k where
            e: "queue this1 = queue this @ [entry]" "entry_of it entry"
              "znode_name entry = ''queue-'' @ pad10 (toString k)"
              "tryGet z1 (replica_path this @ [''queue'', znode_name entry]) = Some (entry_str it)"
            by blast
          from e(4) obtain n1 where
            n1: "lookup z1 (replica_path this @ [''queue'', znode_name entry]) = Some n1"
              "node_value n1 = entry_str it"
            by (auto simp: tryGet_def)
          from keep n1(1) have "lookup z' (replica_path this @ [''queue'', znode_name entry]) = Some n1"
            by blast
          with n1(2) have t: "tryGet z' (replica_path this @ [''queue'', znode_name entry]) =
              Some (entry_str it)"
            by (simp add: tryGet_def)
          from ents obtain entries where
            es: "queue this' = queue this1 @ entries"
              "list_all2 (\<lambda>it entry. entry_of it entry \<and>
                (\<exists>k. znode_name entry = ''queue-'' @ pad10 (toString k)) \<and>
                tryGet z' (replica_path this @ [''queue'', znode_name entry]) = Some (entry_str it))
             pulled entries"
            by blast
          have "queue this' = queue this @ (entry # entries)"
            using e(1) es(1) by simp
          moreover have "list_all2 (\<lambda>it entry. entry_of it entry \<and>
                (\<exists>k. znode_name entry = ''queue-'' @ pad10 (toString k)) \<and>
                tryGet z' (replica_path this @ [''queue'', znode_name entry]) = Some (entry_str it))
             (it # pulled) (entry # entries)"
            using e(2,3) t es(2) by auto
          ultimately show ?thesis by blast
        qed
        have 7: "\<forall>nm n. lookup z (replica_path this @ [''queue'', nm]) = Some n \<longrightarrow>
                lookup z' (replica_path this @ [''queue'', nm]) = Some n"
          using pull_entry_keeps_queue [OF pe] keep by blast
        have 8: "\<forall>x\<in>set (it # pulled). \<exists>v. pointer_value z'
              (replica_path this @ [''log_pointers'', replica x]) = Some v \<and> index x < v"
        proof -
          from adv have "pointer_advanced (least (replica it))
               (pointer_value z1 (replica_path this @ [''log_pointers'', replica it]))
               (pointer_value z' (replica_path this @ [''log_pointers'', replica it]))"
            by blast
          with step(2) obtain v where
            v: "pointer_value z' (replica_path this @ [''log_pointers'', replica it]) = Some v"
              "index it + 1 \<le> v"
            by (auto simp: pointer_advanced_def split: option.splits)
          have "index it < index it + 1"
            using word_succ_small(1) [OF small] by (simp add: word_less_nat_alt)
          with v(2) have "index it < v" by simp
          with v(1) past show ?thesis by auto
        qed
        from 1 2 3 4 5 6 7 8 show ?thesis by blast
      qed
    qed
  qed
qed

lemma first_entry_smallest:
  assumes seq: "\<And>e. e \<in> set es \<Longrightarrow> sequential_name ''log-'' e" and ne: "es \<noteq> []"
  shows "log_index (hd (sort es)) =
           Inr (Min (set (map (\<lambda>e. case log_index e of Inl err \<Rightarrow> 0 | Inr i \<Rightarrow> i) es)))"
proof -
  let ?f = "\<lambda>e. case log_index e of Inl err \<Rightarrow> 0 | Inr i \<Rightarrow> (i :: UInt64)"
  let ?e0 = "hd (sort es)"
  from ne have sne: "sort es \<noteq> []" by (metis length_0_conv length_sort)
  then have "?e0 \<in> set (sort es)" by (rule hd_in_set)
  then have in0: "?e0 \<in> set es" by simp
  have least: "?e0 \<le> e" if "e \<in> set es" for e
  proof -
    from that have "e \<in> set (sort es)" by simp
    moreover have "sorted (sort es)" by (rule sorted_sort)
    ultimately show ?thesis
      using sne by (cases "sort es") auto
  qed
  have idx: "log_index e = Inr (?f e)" if "e \<in> set es" for e
    using log_index_sequential(1) [OF seq [OF that]] by simp
  have "Min (set (map ?f es)) = ?f ?e0"
  proof (rule Min_eqI)
    show "finite (set (map ?f es))" by simp
    show "?f ?e0 \<in> set (map ?f es)" using in0 by simp
    fix y assume "y \<in> set (map ?f es)"
    then obtain e where e: "e \<in> set es" and y: "y = ?f e" by auto
    have "(?e0 \<le> e) = (?f ?e0 \<le> ?f e)"
      using seq [OF in0] seq [OF e] idx [OF in0] idx [OF e] by (rule sequential_order(1))
    with least [OF e] y show "?f ?e0 \<le> y" by simp
  qed
  with idx [OF in0] show ?thesis by simp
qed

lemma smallest_log_index_cong:
  assumes "set (children z1 (zp @ [''replicas'', p, ''log''])) =
           set (children z (zp @ [''replicas'', p, ''log'']))"
  shows "smallest_log_index z1 zp p = smallest_log_index z zp p"
proof -
  have "(children z1 (zp @ [''replicas'', p, ''log'']) = []) =
        (children z (zp @ [''replicas'', p, ''log'']) = [])"
    using assms by (metis set_empty)
  with assms show ?thesis
    by (simp add: smallest_log_index_def Let_def)
qed

lemma children_agree:
  assumes "\<And>e. lookup z1 (d @ [e]) = lookup z (d @ [e])"
  shows "set (children z1 d) = set (children z d)"
  using assms by (auto simp: child_iff_exists exists_def)

lemma first_index_step:
  assumes seq: "\<forall>e n. lookup z (zookeeper_path this @ [''replicas'', r, ''log'', e]) = Some n \<longrightarrow>
                  sequential_name ''log-'' e"
    and fi: "first_index this z r = (res, z1)"
  shows "lookup z1 (zookeeper_path this @ [''replicas'', r', ''log'', e]) =
           lookup z (zookeeper_path this @ [''replicas'', r', ''log'', e])"
    and "p \<noteq> r \<Longrightarrow> pointer_value z1 (replica_path this @ [''log_pointers'', p]) =
           pointer_value z (replica_path this @ [''log_pointers'', p])"
    and "pointer_value z1 (replica_path this @ [''log_pointers'', r]) =
           pointer_value z (replica_path this @ [''log_pointers'', r]) \<or>
         pointer_value z (replica_path this @ [''log_pointers'', r]) = None \<and>
         pointer_value z1 (replica_path this @ [''log_pointers'', r]) =
           Some (smallest_log_index z (zookeeper_path this) r)"
    and "res = Inr i \<Longrightarrow> pointer_value z1 (replica_path this @ [''log_pointers'', r]) = Some i"
proof -
  let ?ptr = "replica_path this @ [''log_pointers'', r]"
  let ?dir = "zookeeper_path this @ [''replicas'', r, ''log'']"
  let ?es = "children z ?dir"
  let ?goal = "(\<forall>r' e. lookup z1 (zookeeper_path this @ [''replicas'', r', ''log'', e]) =
           lookup z (zookeeper_path this @ [''replicas'', r', ''log'', e])) \<and>
    (\<forall>p. p \<noteq> r \<longrightarrow> pointer_value z1 (replica_path this @ [''log_pointers'', p]) =
           pointer_value z (replica_path this @ [''log_pointers'', p])) \<and>
    (pointer_value z1 ?ptr = pointer_value z ?ptr \<or>
     pointer_value z ?ptr = None \<and>
     pointer_value z1 ?ptr = Some (smallest_log_index z (zookeeper_path this) r)) \<and>
    (\<forall>i. res = Inr i \<longrightarrow> pointer_value z1 ?ptr = Some i)"
  have same: ?goal if "z1 = z" and "\<And>i. res = Inr i \<Longrightarrow> pointer_value z ?ptr = Some i"
    using that by simp
  have ?goal
  proof (cases "tryGet z ?ptr")
    case (Some s)
    show ?thesis
    proof (rule same)
      show "z1 = z"
        using fi Some by (auto simp: first_index_def split: sum.splits)
      fix i assume "res = Inr i"
      then show "pointer_value z ?ptr = Some i"
        using fi Some by (auto simp: first_index_def pointer_value_def split: sum.splits)
    qed
  next
    case None
    then have pv: "pointer_value z ?ptr = None" by (simp add: pointer_value_def)
    have sq: "sequential_name ''log-'' e" if "e \<in> set ?es" for e
    proof -
      from that have "exists z (?dir @ [e])" by (simp only: child_iff_exists)
      then obtain n where "lookup z (zookeeper_path this @ [''replicas'', r, ''log'', e]) = Some n"
        by (auto simp: exists_def)
      with seq show ?thesis by blast
    qed
    show ?thesis
    proof (cases "\<exists>i created. exists z ?dir \<and>
        (if sort ?es = [] then Inr 0 else log_index (hd (sort ?es))) = Inr i \<and>
        create z ?ptr (toString (unat i)) Persistent = (Inr created, z1) \<and> res = Inr i")
      case False
      show ?thesis
      proof (rule same)
        show "z1 = z"
          using fi None False
          by (auto simp: first_index_def getChildren_def dest: create_fails_unchanged
              split: sum.splits if_splits prod.splits)
        fix i assume "res = Inr i"
        then show "pointer_value z ?ptr = Some i"
          using fi None False
          by (auto simp: first_index_def getChildren_def split: sum.splits if_splits prod.splits)
      qed
    next
      case True
      then obtain i created where
        i: "(if sort ?es = [] then Inr 0 else log_index (hd (sort ?es))) = Inr i"
        and c: "create z ?ptr (toString (unat i)) Persistent = (Inr created, z1)"
        and res: "res = Inr i"
        by blast
      have 1: "lookup z1 (zookeeper_path this @ [''replicas'', r', ''log'', e]) =
           lookup z (zookeeper_path this @ [''replicas'', r', ''log'', e])" for r' e
        by (rule create_lookup [OF c]) (simp_all add: replica_path_def butlast_append)
      have 2: "pointer_value z1 (replica_path this @ [''log_pointers'', p]) =
           pointer_value z (replica_path this @ [''log_pointers'', p])" if "p \<noteq> r" for p
      proof (rule pointer_value_cong)
        show "lookup z1 (replica_path this @ [''log_pointers'', p]) =
            lookup z (replica_path this @ [''log_pointers'', p])"
          using that by (intro create_lookup [OF c]) (simp_all add: butlast_append)
      qed
      have 4: "pointer_value z1 ?ptr = Some i"
        using create_value [OF c] by (rule pointer_value_written)
      have "i = smallest_log_index z (zookeeper_path this) r"
      proof (cases "?es = []")
        case True
        with i show ?thesis by (simp add: smallest_log_index_def)
      next
        case False
        then have "sort ?es \<noteq> []" by (metis length_0_conv length_sort)
        with i have "log_index (hd (sort ?es)) = Inr i" by simp
        with first_entry_smallest [of ?es, OF sq False] False show ?thesis
          by (simp add: smallest_log_index_def Let_def)
      qed
      with 1 2 4 pv res show ?thesis by simp
    qed
  qed
  then show "lookup z1 (zookeeper_path this @ [''replicas'', r', ''log'', e]) =
           lookup z (zookeeper_path this @ [''replicas'', r', ''log'', e])"
    and "p \<noteq> r \<Longrightarrow> pointer_value z1 (replica_path this @ [''log_pointers'', p]) =
           pointer_value z (replica_path this @ [''log_pointers'', p])"
    and "pointer_value z1 ?ptr = pointer_value z ?ptr \<or>
         pointer_value z ?ptr = None \<and>
         pointer_value z1 ?ptr = Some (smallest_log_index z (zookeeper_path this) r)"
    and "res = Inr i \<Longrightarrow> pointer_value z1 ?ptr = Some i"
    by blast+
qed

lemma init_iterators_inv:
  fixes z0 :: coordinator
  assumes wf: "logs_well_formed z0 (zookeeper_path this)"
  shows "(\<forall>r e. lookup z (zookeeper_path this @ [''replicas'', r, ''log'', e]) =
            lookup z0 (zookeeper_path this @ [''replicas'', r, ''log'', e])) \<Longrightarrow>
     (\<forall>it\<in>set pq. readEntry z (zookeeper_path this) it = Some it) \<Longrightarrow>
     distinct (map replica pq) \<Longrightarrow> distinct rs \<Longrightarrow> set rs \<inter> replica ` set pq = {} \<Longrightarrow>
     (\<forall>it\<in>set pq. pointer_value z (replica_path this @ [''log_pointers'', replica it]) =
                      Some (index it)) \<Longrightarrow>
     init_iterators this z rs pq = (res, z') \<Longrightarrow>
     (\<forall>r e. lookup z' (zookeeper_path this @ [''replicas'', r, ''log'', e]) =
            lookup z0 (zookeeper_path this @ [''replicas'', r, ''log'', e])) \<and>
     (\<forall>p. pointer_value z' (replica_path this @ [''log_pointers'', p]) =
            pointer_value z (replica_path this @ [''log_pointers'', p]) \<or>
          pointer_value z (replica_path this @ [''log_pointers'', p]) = None \<and>
          pointer_value z' (replica_path this @ [''log_pointers'', p]) =
            Some (smallest_log_index z0 (zookeeper_path this) p)) \<and>
     (\<forall>pq'. res = Inr pq' \<longrightarrow>
        (\<forall>it\<in>set pq'. readEntry z' (zookeeper_path this) it = Some it) \<and>
        distinct (map replica pq') \<and>
        (\<forall>it\<in>set pq'. pointer_value z' (replica_path this @ [''log_pointers'', replica it]) =
                      Some (index it)))"
proof (induction rs arbitrary: z pq)
  case Nil
  then show ?case by auto
next
  case (Cons r rs)
  let ?zp = "zookeeper_path this"
  let ?ptr = "\<lambda>p. replica_path this @ [''log_pointers'', p]"
  note agree = Cons.prems(1) and rd = Cons.prems(2) and dist = Cons.prems(3)
    and drs = Cons.prems(4) and disj = Cons.prems(5) and ptr = Cons.prems(6)
    and run = Cons.prems(7)
  obtain res1 z1 where fi: "first_index this z r = (res1, z1)"
    by (cases "first_index this z r")
  have seq: "\<forall>e n. lookup z (?zp @ [''replicas'', r, ''log'', e]) = Some n \<longrightarrow>
      sequential_name ''log-'' e"
  proof (intro allI impI)
    fix e n
    assume "lookup z (?zp @ [''replicas'', r, ''log'', e]) = Some n"
    with agree have "lookup z0 (?zp @ [''replicas'', r, ''log'', e]) = Some n" by simp
    with wf show "sequential_name ''log-'' e" by (rule logs_well_formed_names)
  qed
  note st = first_index_step [OF seq fi]
  have agree1: "\<forall>r e. lookup z1 (?zp @ [''replicas'', r, ''log'', e]) =
      lookup z0 (?zp @ [''replicas'', r, ''log'', e])"
    using st(1) agree by simp
  have "set (children z (?zp @ [''replicas'', r, ''log''])) =
      set (children z0 (?zp @ [''replicas'', r, ''log'']))"
    by (rule children_agree) (simp add: agree)
  then have small: "smallest_log_index z ?zp r = smallest_log_index z0 ?zp r"
    by (rule smallest_log_index_cong)
  have rel1: "pointer_value z1 (?ptr p) = pointer_value z (?ptr p) \<or>
      pointer_value z (?ptr p) = None \<and>
      pointer_value z1 (?ptr p) = Some (smallest_log_index z0 ?zp p)" for p
  proof (cases "p = r")
    case True
    with st(3) small show ?thesis by simp
  next
    case False
    then show ?thesis using st(2) by simp
  qed
  show ?case
  proof (cases res1)
    case (Inl e)
    with fi run have "res = Inl e" and "z' = z1" by simp_all
    with agree1 rel1 show ?thesis by simp
  next
    case (Inr i)
    define new where "new =
      (case readEntry z1 ?zp \<lparr>replica = r, index = i, timestamp = 0, entry_str = ''''\<rparr> of
         None \<Rightarrow> [] | Some it \<Rightarrow> [it])"
    have run1: "init_iterators this z1 rs (pq @ new) = (res, z')"
      using run fi Inr by (simp add: new_def pq_push_def split: option.splits)
    have new: "readEntry z1 ?zp x = Some x \<and> replica x = r \<and> index x = i"
      if "x \<in> set new" for x
    proof -
      from that have
        "readEntry z1 ?zp \<lparr>replica = r, index = i, timestamp = 0, entry_str = ''''\<rparr> = Some x"
        by (auto simp: new_def split: option.splits)
      from readEntry_result [OF this] show ?thesis by simp
    qed
    have len_new: "length new \<le> 1"
      by (simp add: new_def split: option.splits)
    have notin: "r \<notin> replica ` set pq" and "r \<notin> set rs"
      using disj drs by auto
    have fresh: "replica x \<noteq> r" if "x \<in> set pq" for x
      using notin that by (metis imageI)
    have rd': "\<forall>x\<in>set (pq @ new). readEntry z1 ?zp x = Some x"
    proof
      fix x assume "x \<in> set (pq @ new)"
      then consider "x \<in> set pq" | "x \<in> set new" by auto
      then show "readEntry z1 ?zp x = Some x"
      proof cases
        case 1
        then have "readEntry z ?zp x = Some x" using rd by blast
        moreover have "readEntry z1 ?zp x = readEntry z ?zp x"
          by (rule readEntry_cong) (simp add: st(1))
        ultimately show ?thesis by simp
      next
        case 2
        then show ?thesis using new by blast
      qed
    qed
    have dist': "distinct (map replica (pq @ new))"
    proof -
      have "distinct (map replica new)"
        using len_new by (cases new) simp_all
      moreover have "replica x \<noteq> replica y" if "x \<in> set pq" and "y \<in> set new" for x y
        using fresh [OF that(1)] new [OF that(2)] by simp
      then have "replica ` set pq \<inter> replica ` set new = {}"
        by blast
      ultimately show ?thesis using dist by simp
    qed
    have drs': "distinct rs" using drs by simp
    have disj': "set rs \<inter> replica ` set (pq @ new) = {}"
    proof -
      have "replica ` set new \<subseteq> {r}" using new by auto
      with \<open>r \<notin> set rs\<close> disj show ?thesis by auto
    qed
    have ptr': "\<forall>x\<in>set (pq @ new). pointer_value z1 (?ptr (replica x)) = Some (index x)"
    proof
      fix x assume "x \<in> set (pq @ new)"
      then consider "x \<in> set pq" | "x \<in> set new" by auto
      then show "pointer_value z1 (?ptr (replica x)) = Some (index x)"
      proof cases
        case 1
        then have "replica x \<noteq> r" by (rule fresh)
        from st(2) [OF this] ptr 1 show ?thesis by simp
      next
        case 2
        then have "replica x = r" "index x = i" using new by blast+
        with st(4) [OF Inr] show ?thesis by simp
      qed
    qed
    note IH = Cons.IH [OF agree1 rd' dist' drs' disj' ptr' run1]
    have rel: "pointer_value z' (?ptr p) = pointer_value z (?ptr p) \<or>
        pointer_value z (?ptr p) = None \<and>
        pointer_value z' (?ptr p) = Some (smallest_log_index z0 ?zp p)" for p
    proof -
      from IH have "pointer_value z' (?ptr p) = pointer_value z1 (?ptr p) \<or>
          pointer_value z1 (?ptr p) = None \<and>
          pointer_value z' (?ptr p) = Some (smallest_log_index z0 ?zp p)"
        by blast
      with rel1 [of p] show ?thesis by auto
    qed
    from IH rel show ?thesis by blast
  qed
qed

lemma pointer_initialised_advanced:
  assumes "after = before \<or> before = None \<and> after = Some least"
  shows "pointer_advanced least before after"
  using assms by (auto simp: pointer_advanced_def split: option.splits)

text \<open>
  A run of \<^verbatim>\<open>pullLogsToQueue\<close> on well-formed logs returns. It commits iterators whose
  timestamps do not decrease; each of them is an entry of a log as the run found it, its
  text is in a new node of the queue whose name the new queue entry holds, and the pointer
  to its log is past its index. No pointer goes back, and the first loop leaves a pointer
  as it is or sets a missing one to the smallest index in the log.
\<close>

lemma pullLogsToQueue_run:
  assumes up: "unique_paths z" and wf: "logs_well_formed z (zookeeper_path this)"
  shows "\<exists>result this' z' pulled entries.
     pullLogsToQueue this z = Some (result, this', z') \<and>
     pull_entries this (after_first_loop this z) pulled = (Inr this', z') \<and>
     sorted (map timestamp pulled) \<and>
     (\<forall>it\<in>set pulled. readEntry z (zookeeper_path this) it = Some it) \<and>
     queue this' = queue this @ entries \<and>
     list_all2 (\<lambda>it entry. entry_of it entry \<and>
          (\<exists>k. znode_name entry = ''queue-'' @ pad10 (toString k)) \<and>
          tryGet z' (replica_path this @ [''queue'', znode_name entry]) = Some (entry_str it))
       pulled entries \<and>
     (\<forall>it\<in>set pulled. \<exists>v. pointer_value z' (replica_path this @ [''log_pointers'', replica it]) =
                               Some v \<and> index it < v) \<and>
     (\<forall>p. pointer_advanced (smallest_log_index z (zookeeper_path this) p)
            (pointer_value z (replica_path this @ [''log_pointers'', p]))
            (pointer_value z' (replica_path this @ [''log_pointers'', p]))) \<and>
     (\<forall>p. pointer_value (after_first_loop this z) (replica_path this @ [''log_pointers'', p]) =
            pointer_value z (replica_path this @ [''log_pointers'', p]) \<or>
          pointer_value z (replica_path this @ [''log_pointers'', p]) = None \<and>
          pointer_value (after_first_loop this z) (replica_path this @ [''log_pointers'', p]) =
            Some (smallest_log_index z (zookeeper_path this) p))"
proof -
  let ?zp = "zookeeper_path this"
  let ?ptr = "\<lambda>p. replica_path this @ [''log_pointers'', p]"
  have stop: ?thesis
    if run: "pullLogsToQueue this z = Some (result, this, z1)"
      and aft: "after_first_loop this z = z1"
      and rel: "\<forall>p. pointer_value z1 (?ptr p) = pointer_value z (?ptr p) \<or>
          pointer_value z (?ptr p) = None \<and>
          pointer_value z1 (?ptr p) = Some (smallest_log_index z ?zp p)"
    for result z1
  proof -
    have 2: "pull_entries this z1 [] = (Inr this, z1)" by simp
    have 3: "sorted (map timestamp [])" by simp
    have 4: "\<forall>it\<in>set []. readEntry z ?zp it = Some it" by simp
    have 5: "queue this = queue this @ []" by simp
    have 6: "list_all2 (\<lambda>it entry. entry_of it entry \<and>
          (\<exists>k. znode_name entry = ''queue-'' @ pad10 (toString k)) \<and>
          tryGet z1 (replica_path this @ [''queue'', znode_name entry]) = Some (entry_str it))
       [] []"
      by simp
    have 7: "\<forall>it\<in>set []. \<exists>v. pointer_value z1 (?ptr (replica it)) = Some v \<and> index it < v"
      by simp
    have 8: "\<forall>p. pointer_advanced (smallest_log_index z ?zp p)
            (pointer_value z (?ptr p)) (pointer_value z1 (?ptr p))"
      using rel by (intro allI pointer_initialised_advanced) blast
    show ?thesis
      unfolding aft
      by (intro exI conjI) (rule run, rule 2, rule 3, rule 4, rule 5, rule 6, rule 7, rule 8, rule rel)
  qed
  show ?thesis
  proof (cases "getChildren z (?zp @ [''replicas''])")
    case (Inl e)
    then have "pullLogsToQueue this z = Some (Inl e, this, z)"
      and "after_first_loop this z = z"
      by (simp_all add: pullLogsToQueue_def after_first_loop_def)
    then show ?thesis by (rule stop) simp
  next
    case (Inr replicas)
    then have "replicas = children z (?zp @ [''replicas''])"
      by (auto simp: getChildren_def split: if_splits)
    with up have drs: "distinct replicas" by (simp add: children_distinct)
    obtain res z1 where init: "init_iterators this z replicas [] = (res, z1)"
      by (cases "init_iterators this z replicas []")
    have after: "after_first_loop this z = z1"
      using Inr init by (simp add: after_first_loop_def)
    have inv: "(\<forall>r e. lookup z1 (?zp @ [''replicas'', r, ''log'', e]) =
              lookup z (?zp @ [''replicas'', r, ''log'', e])) \<and>
       (\<forall>p. pointer_value z1 (?ptr p) = pointer_value z (?ptr p) \<or>
            pointer_value z (?ptr p) = None \<and>
            pointer_value z1 (?ptr p) = Some (smallest_log_index z ?zp p)) \<and>
       (\<forall>pq'. res = Inr pq' \<longrightarrow>
          (\<forall>it\<in>set pq'. readEntry z1 ?zp it = Some it) \<and>
          distinct (map replica pq') \<and>
          (\<forall>it\<in>set pq'. pointer_value z1 (?ptr (replica it)) = Some (index it)))"
      by (rule init_iterators_inv [OF wf _ _ _ drs _ _ init]) simp_all
    then have rel: "\<forall>p. pointer_value z1 (?ptr p) = pointer_value z (?ptr p) \<or>
            pointer_value z (?ptr p) = None \<and>
            pointer_value z1 (?ptr p) = Some (smallest_log_index z ?zp p)"
      by blast
    then have adv1: "pointer_advanced (smallest_log_index z ?zp p)
        (pointer_value z (?ptr p)) (pointer_value z1 (?ptr p))" for p
      by (intro pointer_initialised_advanced) blast
    show ?thesis
    proof (cases res)
      case (Inl e)
      with Inr init have "pullLogsToQueue this z = Some (Inl e, this, z1)"
        by (simp add: pullLogsToQueue_def)
      then show ?thesis using after rel by (rule stop)
    next
      case res: (Inr pq)
      with Inr init have run: "pullLogsToQueue this z = drain this z1 pq 0"
        by (simp add: pullLogsToQueue_def)
      from inv res have agree1: "\<forall>r e. lookup z1 (?zp @ [''replicas'', r, ''log'', e]) =
              lookup z (?zp @ [''replicas'', r, ''log'', e])"
        and rd: "\<forall>it\<in>set pq. readEntry z1 ?zp it = Some it"
        and dist: "distinct (map replica pq)"
        and ptr: "\<forall>it\<in>set pq. pointer_value z1 (?ptr (replica it)) = Some (index it)"
        by blast+
      from drain_total [OF wf refl agree1 rd dist ptr,
          where least = "smallest_log_index z ?zp" and count = 0]
      obtain result this' z' pulled where
        d: "drain this z1 pq 0 = Some (result, this', z')"
        and pes: "pull_entries this z1 pulled = (Inr this', z')"
        and srt: "sorted (map timestamp pulled)"
        and low: "\<forall>it\<in>set pulled. readEntry z ?zp it = Some it"
        and ents: "\<exists>entries. queue this' = queue this @ entries \<and>
           list_all2 (\<lambda>it entry. entry_of it entry \<and>
                (\<exists>k. znode_name entry = ''queue-'' @ pad10 (toString k)) \<and>
                tryGet z' (replica_path this @ [''queue'', znode_name entry]) = Some (entry_str it))
             pulled entries"
        and past: "\<forall>it\<in>set pulled. \<exists>v. pointer_value z' (?ptr (replica it)) = Some v \<and>
            index it < v"
        and adv: "\<forall>p. pointer_advanced (smallest_log_index z ?zp p)
                 (pointer_value z1 (?ptr p)) (pointer_value z' (?ptr p))"
        by blast
      from ents obtain entries where
        q: "queue this' = queue this @ entries"
        and es: "list_all2 (\<lambda>it entry. entry_of it entry \<and>
                (\<exists>k. znode_name entry = ''queue-'' @ pad10 (toString k)) \<and>
                tryGet z' (replica_path this @ [''queue'', znode_name entry]) = Some (entry_str it))
             pulled entries"
        by blast
      have "pointer_advanced (smallest_log_index z ?zp p)
          (pointer_value z (?ptr p)) (pointer_value z' (?ptr p))" for p
        using adv1 [of p] adv by (blast intro: pointer_advanced_trans)
      then have 5: "\<forall>p. pointer_advanced (smallest_log_index z ?zp p)
          (pointer_value z (?ptr p)) (pointer_value z' (?ptr p))"
        by blast
      from run d have 1: "pullLogsToQueue this z = Some (result, this', z')" by simp
      show ?thesis
        unfolding after
        by (intro exI conjI)
           (rule 1, rule pes, rule srt, rule low, rule q, rule es, rule past, rule 5, rule rel)
    qed
  qed
qed

text \<open>
  C2. On well-formed logs (every log entry has a sequential name, the entries of one log
  were created in the order of their names, and paths are unique) a run of
  \<^verbatim>\<open>pullLogsToQueue\<close> returns, and there are the iterators \<open>pulled\<close> that it committed, in
  this order, and the entries that it appended to the queue, in the same order, such that:
  the state reached is the one that the turns \<open>pull_entry\<close> of these iterators give in
  turn, each a single \<open>multi\<close> of \<open>pull_ops\<close>; the timestamps of the iterators do not
  decrease; and each iterator is the log entry of its replica at its index, with the
  \<open>czxid\<close> of this entry as timestamp and the value of this entry as text; the queue entry
  is this text parsed, under the name of a new node; this node is a sequential child
  \<open>queue-\<close> of the queue of this replica and holds the text; and the pointer of this
  replica to the log is past the index.
\<close>

theorem pullLogsToQueue_pulls_in_czxid_order:
  assumes "unique_paths z" and "logs_well_formed z (zookeeper_path this)"
  shows "\<exists>result this' z' pulled entries.
     pullLogsToQueue this z = Some (result, this', z') \<and>
     pull_entries this (after_first_loop this z) pulled = (Inr this', z') \<and>
     queue this' = queue this @ entries \<and>
     sorted (map timestamp pulled) \<and>
     list_all2 (\<lambda>it entry.
         (\<exists>n. lookup z (zookeeper_path this @
                   [''replicas'', replica it, ''log'',
                    ''log-'' @ pad10 (toString (unat (index it)))]) = Some n \<and>
              czxid n = timestamp it \<and> node_value n = entry_str it) \<and>
         (\<exists>parsed. LogEntry_parse (entry_str it) = Inr parsed \<and>
              entry = parsed\<lparr>znode_name := znode_name entry\<rparr>) \<and>
         (\<exists>k. znode_name entry = ''queue-'' @ pad10 (toString k)) \<and>
         tryGet z' (zookeeper_path this @
                      [''replicas'', replica_name this, ''queue'', znode_name entry]) =
           Some (entry_str it) \<and>
         (\<exists>v. pointer_value z' (zookeeper_path this @
                      [''replicas'', replica_name this, ''log_pointers'', replica it]) = Some v \<and>
              index it < v))
       pulled entries"
proof -
  from pullLogsToQueue_run [OF assms] obtain result this' z' pulled entries where
    run: "pullLogsToQueue this z = Some (result, this', z')"
    and pes: "pull_entries this (after_first_loop this z) pulled = (Inr this', z')"
    and srt: "sorted (map timestamp pulled)"
    and rd: "\<forall>it\<in>set pulled. readEntry z (zookeeper_path this) it = Some it"
    and q: "queue this' = queue this @ entries"
    and es: "list_all2 (\<lambda>it entry. entry_of it entry \<and>
          (\<exists>k. znode_name entry = ''queue-'' @ pad10 (toString k)) \<and>
          tryGet z' (replica_path this @ [''queue'', znode_name entry]) = Some (entry_str it))
       pulled entries"
    and past: "\<forall>it\<in>set pulled. \<exists>v. pointer_value z'
        (replica_path this @ [''log_pointers'', replica it]) = Some v \<and> index it < v"
    by blast
  have "list_all2 (\<lambda>it entry.
         (\<exists>n. lookup z (zookeeper_path this @
                   [''replicas'', replica it, ''log'',
                    ''log-'' @ pad10 (toString (unat (index it)))]) = Some n \<and>
              czxid n = timestamp it \<and> node_value n = entry_str it) \<and>
         (\<exists>parsed. LogEntry_parse (entry_str it) = Inr parsed \<and>
              entry = parsed\<lparr>znode_name := znode_name entry\<rparr>) \<and>
         (\<exists>k. znode_name entry = ''queue-'' @ pad10 (toString k)) \<and>
         tryGet z' (zookeeper_path this @
                      [''replicas'', replica_name this, ''queue'', znode_name entry]) =
           Some (entry_str it) \<and>
         (\<exists>v. pointer_value z' (zookeeper_path this @
                      [''replicas'', replica_name this, ''log_pointers'', replica it]) = Some v \<and>
              index it < v))
       pulled entries"
  proof (rule list_all2_all_nthI)
    show "length pulled = length entries"
      using es by (rule list_all2_lengthD)
    fix i assume i: "i < length pulled"
    let ?it = "pulled ! i" and ?entry = "entries ! i"
    from i have mem: "?it \<in> set pulled" by simp
    from es i have e: "entry_of ?it ?entry"
      "\<exists>k. znode_name ?entry = ''queue-'' @ pad10 (toString k)"
      "tryGet z' (replica_path this @ [''queue'', znode_name ?entry]) = Some (entry_str ?it)"
      by (auto dest: list_all2_nthD)
    from rd mem have "readEntry z (zookeeper_path this) ?it = Some ?it" by blast
    then have 1: "\<exists>n. lookup z (zookeeper_path this @
                   [''replicas'', replica ?it, ''log'',
                    ''log-'' @ pad10 (toString (unat (index ?it)))]) = Some n \<and>
              czxid n = timestamp ?it \<and> node_value n = entry_str ?it"
      unfolding readEntry_fixed log_entry_path_def by auto
    from e(1) have 2: "\<exists>parsed. LogEntry_parse (entry_str ?it) = Inr parsed \<and>
              ?entry = parsed\<lparr>znode_name := znode_name ?entry\<rparr>"
      by (auto simp: entry_of_def split: sum.splits)
    from e(3) have 4: "tryGet z' (zookeeper_path this @
        [''replicas'', replica_name this, ''queue'', znode_name ?entry]) = Some (entry_str ?it)"
      by (simp add: replica_path_def)
    from past mem have 5: "\<exists>v. pointer_value z' (zookeeper_path this @
        [''replicas'', replica_name this, ''log_pointers'', replica ?it]) = Some v \<and>
        index ?it < v"
      by (simp add: replica_path_def)
    from 1 2 e(2) 4 5 show
      "(\<exists>n. lookup z (zookeeper_path this @
                   [''replicas'', replica ?it, ''log'',
                    ''log-'' @ pad10 (toString (unat (index ?it)))]) = Some n \<and>
              czxid n = timestamp ?it \<and> node_value n = entry_str ?it) \<and>
         (\<exists>parsed. LogEntry_parse (entry_str ?it) = Inr parsed \<and>
              ?entry = parsed\<lparr>znode_name := znode_name ?entry\<rparr>) \<and>
         (\<exists>k. znode_name ?entry = ''queue-'' @ pad10 (toString k)) \<and>
         tryGet z' (zookeeper_path this @
                      [''replicas'', replica_name this, ''queue'', znode_name ?entry]) =
           Some (entry_str ?it) \<and>
         (\<exists>v. pointer_value z' (zookeeper_path this @
                      [''replicas'', replica_name this, ''log_pointers'', replica ?it]) = Some v \<and>
              index ?it < v)"
      by blast
  qed
  with run pes q srt show ?thesis by blast
qed

text \<open>
  C3. On well-formed logs a run of \<^verbatim>\<open>pullLogsToQueue\<close> returns and, for every peer \<open>p\<close>,
  does not move the pointer \<open>log_pointers/p\<close> of this replica back: a pointer that held
  the number \<open>v\<close> holds a number \<open>v'\<close> with \<open>v \<le> v'\<close> afterwards. A pointer that held no
  number holds none after the first loop, or the smallest index in the log of \<open>p\<close> (0 for
  an empty log); and if it holds a number at the end, this is not below that index.
\<close>

theorem pullLogsToQueue_pointers_do_not_go_back:
  assumes "unique_paths z" and "logs_well_formed z (zookeeper_path this)"
  shows "\<exists>result this' z'.
     pullLogsToQueue this z = Some (result, this', z') \<and>
     (\<forall>p v. pointer_value z (zookeeper_path this @
                 [''replicas'', replica_name this, ''log_pointers'', p]) = Some v \<longrightarrow>
        (\<exists>v'. pointer_value z' (zookeeper_path this @
                 [''replicas'', replica_name this, ''log_pointers'', p]) = Some v' \<and> v \<le> v')) \<and>
     (\<forall>p. pointer_value z (zookeeper_path this @
                 [''replicas'', replica_name this, ''log_pointers'', p]) = None \<longrightarrow>
        pointer_value (after_first_loop this z) (zookeeper_path this @
                 [''replicas'', replica_name this, ''log_pointers'', p]) = None \<or>
        pointer_value (after_first_loop this z) (zookeeper_path this @
                 [''replicas'', replica_name this, ''log_pointers'', p]) =
          Some (smallest_log_index z (zookeeper_path this) p)) \<and>
     (\<forall>p v'. pointer_value z (zookeeper_path this @
                 [''replicas'', replica_name this, ''log_pointers'', p]) = None \<longrightarrow>
        pointer_value z' (zookeeper_path this @
                 [''replicas'', replica_name this, ''log_pointers'', p]) = Some v' \<longrightarrow>
        smallest_log_index z (zookeeper_path this) p \<le> v')"
proof -
  have ptr: "zookeeper_path this @ [''replicas'', replica_name this, ''log_pointers'', p] =
      replica_path this @ [''log_pointers'', p]" for p
    by (simp add: replica_path_def)
  from pullLogsToQueue_run [OF assms] obtain result this' z' where
    run: "pullLogsToQueue this z = Some (result, this', z')"
    and adv: "\<forall>p. pointer_advanced (smallest_log_index z (zookeeper_path this) p)
            (pointer_value z (replica_path this @ [''log_pointers'', p]))
            (pointer_value z' (replica_path this @ [''log_pointers'', p]))"
    and init: "\<forall>p. pointer_value (after_first_loop this z) (replica_path this @ [''log_pointers'', p]) =
            pointer_value z (replica_path this @ [''log_pointers'', p]) \<or>
          pointer_value z (replica_path this @ [''log_pointers'', p]) = None \<and>
          pointer_value (after_first_loop this z) (replica_path this @ [''log_pointers'', p]) =
            Some (smallest_log_index z (zookeeper_path this) p)"
    by blast
  have 1: "\<forall>p v. pointer_value z (replica_path this @ [''log_pointers'', p]) = Some v \<longrightarrow>
      (\<exists>v'. pointer_value z' (replica_path this @ [''log_pointers'', p]) = Some v' \<and> v \<le> v')"
  proof (intro allI impI)
    fix p v
    assume "pointer_value z (replica_path this @ [''log_pointers'', p]) = Some v"
    with adv [THEN spec, of p]
    show "\<exists>v'. pointer_value z' (replica_path this @ [''log_pointers'', p]) = Some v' \<and> v \<le> v'"
      by (auto simp: pointer_advanced_def split: option.splits)
  qed
  have 2: "\<forall>p. pointer_value z (replica_path this @ [''log_pointers'', p]) = None \<longrightarrow>
      pointer_value (after_first_loop this z) (replica_path this @ [''log_pointers'', p]) = None \<or>
      pointer_value (after_first_loop this z) (replica_path this @ [''log_pointers'', p]) =
        Some (smallest_log_index z (zookeeper_path this) p)"
    using init by metis
  have 3: "\<forall>p v'. pointer_value z (replica_path this @ [''log_pointers'', p]) = None \<longrightarrow>
      pointer_value z' (replica_path this @ [''log_pointers'', p]) = Some v' \<longrightarrow>
      smallest_log_index z (zookeeper_path this) p \<le> v'"
  proof (intro allI impI)
    fix p v'
    assume "pointer_value z (replica_path this @ [''log_pointers'', p]) = None"
      and "pointer_value z' (replica_path this @ [''log_pointers'', p]) = Some v'"
    with adv [THEN spec, of p]
    show "smallest_log_index z (zookeeper_path this) p \<le> v'"
      by (simp add: pointer_advanced_def)
  qed
  show ?thesis
    unfolding ptr using run 1 2 3 by blast
qed

lemma two_logs_well_formed:
  shows "unique_paths table_two_logs"
    and "logs_well_formed table_two_logs (zookeeper_path storage_r1)"
  by (simp_all add: unique_paths_def logs_well_formed_def log_names_sequential_def
      logs_in_creation_order_def log_entry_of_def sequential_name_def is_digit_def
      table_two_logs_def storage_r1_def persistent_node_def)

lemma parse_get:
  assumes "plain part_name"
  shows "LogEntry_parse (LogEntry_toString
      \<lparr>znode_name = [], type = GET_PART, source_replica = ''r1'',
       new_part_name = part_name, parts_to_merge = []\<rparr>) =
    Inr \<lparr>znode_name = [], type = GET_PART, source_replica = ''r1'',
       new_part_name = part_name, parts_to_merge = []\<rparr>"
proof (rule LogEntry_parse_toString)
  have "plain ''r1''" by (simp add: plain_def is_delim_def tab_def nl_def)
  with assms show "well_formed \<lparr>znode_name = [], type = GET_PART, source_replica = ''r1'',
       new_part_name = part_name, parts_to_merge = []\<rparr>"
    by (simp add: well_formed_def)
  show "znode_name \<lparr>znode_name = [], type = GET_PART, source_replica = ''r1'',
       new_part_name = part_name, parts_to_merge = []\<rparr> = []"
    by simp
qed

lemma toString_digit: "n < 10 \<Longrightarrow> toString n = [digit_char n]"
  by (subst toString.simps) simp

lemma pad10_single: "pad10 [c] = ''000000000'' @ [c]"
  by (simp add: pad10_def eval_nat_numeral)

lemma plain_names: "plain ''p1''" "plain ''p2''" "plain ''p3''" "plain ''p4''"
  by (simp_all add: plain_def is_delim_def tab_def nl_def)

lemma two_logs_run:
  "(case pullLogsToQueue storage_r1 table_two_logs of
      None \<Rightarrow> False
    | Some (Inl e, this', z') \<Rightarrow> False
    | Some (Inr count, this', z') \<Rightarrow>
        count = 4 \<and>
        map new_part_name (queue this') = [''p1'', ''p2'', ''p3'', ''p4''] \<and>
        map znode_name (queue this') =
          [''queue-0000000000'', ''queue-0000000001'', ''queue-0000000002'', ''queue-0000000003''] \<and>
        tryGet z' [''t'', ''replicas'', ''r1'', ''log_pointers'', ''r1''] = Some ''2'' \<and>
        tryGet z' [''t'', ''replicas'', ''r1'', ''log_pointers'', ''r2''] = Some ''6'')"
  by (simp add: pullLogsToQueue_def getChildren_def children_def exists_def lookup_def
      first_index_def tryGet_def log_index_def substr_def parseUInt64_def is_digit_def
      digit_val_def readEntry_def log_entry_path_def create_def multi_def tryMulti_def
      created_name_def Let_def pq_push_def pq_top_def pq_pop_def drain.simps pull_entry_def
      pull_ops_def addResultToVirtualParts_def parse_get plain_names
      table_two_logs_def storage_r1_def replica_path_def persistent_node_def
      toString_digit pad10_single digit_char_def S4_get_def)

text \<open>
  Replica \<open>r1\<close> pulls the four entries of the two logs of \<open>table_two_logs\<close>, in the order
  of their creation: the parts \<open>p1\<close> to \<open>p4\<close>.
\<close>

theorem pullLogsToQueue_pulls_in_czxid_order_witness:
  "unique_paths table_two_logs \<and>
   logs_well_formed table_two_logs (zookeeper_path storage_r1) \<and>
   (\<exists>result this' z' pulled entries.
     pullLogsToQueue storage_r1 table_two_logs = Some (result, this', z') \<and>
     result = Inr 4 \<and>
     map new_part_name entries = [''p1'', ''p2'', ''p3'', ''p4''] \<and>
     pull_entries storage_r1 (after_first_loop storage_r1 table_two_logs) pulled = (Inr this', z') \<and>
     queue this' = queue storage_r1 @ entries \<and>
     sorted (map timestamp pulled) \<and>
     list_all2 (\<lambda>it entry.
         (\<exists>n. lookup table_two_logs (zookeeper_path storage_r1 @
                   [''replicas'', replica it, ''log'',
                    ''log-'' @ pad10 (toString (unat (index it)))]) = Some n \<and>
              czxid n = timestamp it \<and> node_value n = entry_str it) \<and>
         (\<exists>parsed. LogEntry_parse (entry_str it) = Inr parsed \<and>
              entry = parsed\<lparr>znode_name := znode_name entry\<rparr>) \<and>
         (\<exists>k. znode_name entry = ''queue-'' @ pad10 (toString k)) \<and>
         tryGet z' (zookeeper_path storage_r1 @
                      [''replicas'', replica_name storage_r1, ''queue'', znode_name entry]) =
           Some (entry_str it) \<and>
         (\<exists>v. pointer_value z' (zookeeper_path storage_r1 @
                      [''replicas'', replica_name storage_r1, ''log_pointers'', replica it]) = Some v \<and>
              index it < v))
       pulled entries)"
proof -
  note wf = two_logs_well_formed
  from pullLogsToQueue_pulls_in_czxid_order [OF two_logs_well_formed]
  obtain result this' z' pulled entries where
    run: "pullLogsToQueue storage_r1 table_two_logs = Some (result, this', z')"
    and pes: "pull_entries storage_r1 (after_first_loop storage_r1 table_two_logs) pulled =
        (Inr this', z')"
    and q: "queue this' = queue storage_r1 @ entries"
    and srt: "sorted (map timestamp pulled)"
    and es: "list_all2 (\<lambda>it entry.
         (\<exists>n. lookup table_two_logs (zookeeper_path storage_r1 @
                   [''replicas'', replica it, ''log'',
                    ''log-'' @ pad10 (toString (unat (index it)))]) = Some n \<and>
              czxid n = timestamp it \<and> node_value n = entry_str it) \<and>
         (\<exists>parsed. LogEntry_parse (entry_str it) = Inr parsed \<and>
              entry = parsed\<lparr>znode_name := znode_name entry\<rparr>) \<and>
         (\<exists>k. znode_name entry = ''queue-'' @ pad10 (toString k)) \<and>
         tryGet z' (zookeeper_path storage_r1 @
                      [''replicas'', replica_name storage_r1, ''queue'', znode_name entry]) =
           Some (entry_str it) \<and>
         (\<exists>v. pointer_value z' (zookeeper_path storage_r1 @
                      [''replicas'', replica_name storage_r1, ''log_pointers'', replica it]) = Some v \<and>
              index it < v))
       pulled entries"
    by blast
  from two_logs_run run have res: "result = Inr 4"
    and parts: "map new_part_name (queue this') = [''p1'', ''p2'', ''p3'', ''p4'']"
    by (auto split: sum.splits)
  have "queue storage_r1 = []" by (simp add: storage_r1_def)
  with q parts have names: "map new_part_name entries = [''p1'', ''p2'', ''p3'', ''p4'']"
    by simp
  from run res names pes q srt es have
    "\<exists>result this' z' pulled entries.
     pullLogsToQueue storage_r1 table_two_logs = Some (result, this', z') \<and>
     result = Inr 4 \<and>
     map new_part_name entries = [''p1'', ''p2'', ''p3'', ''p4''] \<and>
     pull_entries storage_r1 (after_first_loop storage_r1 table_two_logs) pulled = (Inr this', z') \<and>
     queue this' = queue storage_r1 @ entries \<and>
     sorted (map timestamp pulled) \<and>
     list_all2 (\<lambda>it entry.
         (\<exists>n. lookup table_two_logs (zookeeper_path storage_r1 @
                   [''replicas'', replica it, ''log'',
                    ''log-'' @ pad10 (toString (unat (index it)))]) = Some n \<and>
              czxid n = timestamp it \<and> node_value n = entry_str it) \<and>
         (\<exists>parsed. LogEntry_parse (entry_str it) = Inr parsed \<and>
              entry = parsed\<lparr>znode_name := znode_name entry\<rparr>) \<and>
         (\<exists>k. znode_name entry = ''queue-'' @ pad10 (toString k)) \<and>
         tryGet z' (zookeeper_path storage_r1 @
                      [''replicas'', replica_name storage_r1, ''queue'', znode_name entry]) =
           Some (entry_str it) \<and>
         (\<exists>v. pointer_value z' (zookeeper_path storage_r1 @
                      [''replicas'', replica_name storage_r1, ''log_pointers'', replica it]) = Some v \<and>
              index it < v))
       pulled entries"
    by (intro exI conjI)
  with wf show ?thesis by (intro conjI)
qed

text \<open>
  In the same run the pointer of \<open>r1\<close> to its own log goes from 0 to 2, and the pointer to
  the log of \<open>r2\<close>, which it did not have, starts at 4, the smallest index in that log,
  and ends at 6.
\<close>

theorem pullLogsToQueue_pointers_do_not_go_back_witness:
  "unique_paths table_two_logs \<and>
   logs_well_formed table_two_logs (zookeeper_path storage_r1) \<and>
   pointer_value table_two_logs [''t'', ''replicas'', ''r1'', ''log_pointers'', ''r1''] = Some 0 \<and>
   pointer_value table_two_logs [''t'', ''replicas'', ''r1'', ''log_pointers'', ''r2''] = None \<and>
   smallest_log_index table_two_logs [''t''] ''r2'' = 4 \<and>
   (\<exists>result this' z'.
     pullLogsToQueue storage_r1 table_two_logs = Some (result, this', z') \<and>
     pointer_value z' [''t'', ''replicas'', ''r1'', ''log_pointers'', ''r1''] = Some 2 \<and>
     pointer_value z' [''t'', ''replicas'', ''r1'', ''log_pointers'', ''r2''] = Some 6 \<and>
     (\<forall>p v. pointer_value table_two_logs (zookeeper_path storage_r1 @
                 [''replicas'', replica_name storage_r1, ''log_pointers'', p]) = Some v \<longrightarrow>
        (\<exists>v'. pointer_value z' (zookeeper_path storage_r1 @
                 [''replicas'', replica_name storage_r1, ''log_pointers'', p]) = Some v' \<and> v \<le> v')) \<and>
     (\<forall>p. pointer_value table_two_logs (zookeeper_path storage_r1 @
                 [''replicas'', replica_name storage_r1, ''log_pointers'', p]) = None \<longrightarrow>
        pointer_value (after_first_loop storage_r1 table_two_logs) (zookeeper_path storage_r1 @
                 [''replicas'', replica_name storage_r1, ''log_pointers'', p]) = None \<or>
        pointer_value (after_first_loop storage_r1 table_two_logs) (zookeeper_path storage_r1 @
                 [''replicas'', replica_name storage_r1, ''log_pointers'', p]) =
          Some (smallest_log_index table_two_logs (zookeeper_path storage_r1) p)) \<and>
     (\<forall>p v'. pointer_value table_two_logs (zookeeper_path storage_r1 @
                 [''replicas'', replica_name storage_r1, ''log_pointers'', p]) = None \<longrightarrow>
        pointer_value z' (zookeeper_path storage_r1 @
                 [''replicas'', replica_name storage_r1, ''log_pointers'', p]) = Some v' \<longrightarrow>
        smallest_log_index table_two_logs (zookeeper_path storage_r1) p \<le> v'))"
proof -
  note wf = two_logs_well_formed
  have before: "pointer_value table_two_logs [''t'', ''replicas'', ''r1'', ''log_pointers'', ''r1''] = Some 0"
    "pointer_value table_two_logs [''t'', ''replicas'', ''r1'', ''log_pointers'', ''r2''] = None"
    by (simp_all add: pointer_value_def tryGet_def lookup_def table_two_logs_def persistent_node_def
        parseUInt64_def is_digit_def digit_val_def)
  have small: "smallest_log_index table_two_logs [''t''] ''r2'' = 4"
    by (simp add: smallest_log_index_def children_def table_two_logs_def log_index_def substr_def
        parseUInt64_def is_digit_def digit_val_def)
  from pullLogsToQueue_pointers_do_not_go_back [OF two_logs_well_formed]
  obtain result this' z' where
    run: "pullLogsToQueue storage_r1 table_two_logs = Some (result, this', z')"
    and 1: "\<forall>p v. pointer_value table_two_logs (zookeeper_path storage_r1 @
                 [''replicas'', replica_name storage_r1, ''log_pointers'', p]) = Some v \<longrightarrow>
        (\<exists>v'. pointer_value z' (zookeeper_path storage_r1 @
                 [''replicas'', replica_name storage_r1, ''log_pointers'', p]) = Some v' \<and> v \<le> v')"
    and 2: "\<forall>p. pointer_value table_two_logs (zookeeper_path storage_r1 @
                 [''replicas'', replica_name storage_r1, ''log_pointers'', p]) = None \<longrightarrow>
        pointer_value (after_first_loop storage_r1 table_two_logs) (zookeeper_path storage_r1 @
                 [''replicas'', replica_name storage_r1, ''log_pointers'', p]) = None \<or>
        pointer_value (after_first_loop storage_r1 table_two_logs) (zookeeper_path storage_r1 @
                 [''replicas'', replica_name storage_r1, ''log_pointers'', p]) =
          Some (smallest_log_index table_two_logs (zookeeper_path storage_r1) p)"
    and 3: "\<forall>p v'. pointer_value table_two_logs (zookeeper_path storage_r1 @
                 [''replicas'', replica_name storage_r1, ''log_pointers'', p]) = None \<longrightarrow>
        pointer_value z' (zookeeper_path storage_r1 @
                 [''replicas'', replica_name storage_r1, ''log_pointers'', p]) = Some v' \<longrightarrow>
        smallest_log_index table_two_logs (zookeeper_path storage_r1) p \<le> v'"
    by blast
  from two_logs_run run have
    "tryGet z' [''t'', ''replicas'', ''r1'', ''log_pointers'', ''r1''] = Some ''2''"
    "tryGet z' [''t'', ''replicas'', ''r1'', ''log_pointers'', ''r2''] = Some ''6''"
    by (auto split: sum.splits)
  then have after: "pointer_value z' [''t'', ''replicas'', ''r1'', ''log_pointers'', ''r1''] = Some 2"
    "pointer_value z' [''t'', ''replicas'', ''r1'', ''log_pointers'', ''r2''] = Some 6"
    by (simp_all add: pointer_value_def parseUInt64_def is_digit_def digit_val_def)
  from run after 1 2 3 have
    "\<exists>result this' z'.
     pullLogsToQueue storage_r1 table_two_logs = Some (result, this', z') \<and>
     pointer_value z' [''t'', ''replicas'', ''r1'', ''log_pointers'', ''r1''] = Some 2 \<and>
     pointer_value z' [''t'', ''replicas'', ''r1'', ''log_pointers'', ''r2''] = Some 6 \<and>
     (\<forall>p v. pointer_value table_two_logs (zookeeper_path storage_r1 @
                 [''replicas'', replica_name storage_r1, ''log_pointers'', p]) = Some v \<longrightarrow>
        (\<exists>v'. pointer_value z' (zookeeper_path storage_r1 @
                 [''replicas'', replica_name storage_r1, ''log_pointers'', p]) = Some v' \<and> v \<le> v')) \<and>
     (\<forall>p. pointer_value table_two_logs (zookeeper_path storage_r1 @
                 [''replicas'', replica_name storage_r1, ''log_pointers'', p]) = None \<longrightarrow>
        pointer_value (after_first_loop storage_r1 table_two_logs) (zookeeper_path storage_r1 @
                 [''replicas'', replica_name storage_r1, ''log_pointers'', p]) = None \<or>
        pointer_value (after_first_loop storage_r1 table_two_logs) (zookeeper_path storage_r1 @
                 [''replicas'', replica_name storage_r1, ''log_pointers'', p]) =
          Some (smallest_log_index table_two_logs (zookeeper_path storage_r1) p)) \<and>
     (\<forall>p v'. pointer_value table_two_logs (zookeeper_path storage_r1 @
                 [''replicas'', replica_name storage_r1, ''log_pointers'', p]) = None \<longrightarrow>
        pointer_value z' (zookeeper_path storage_r1 @
                 [''replicas'', replica_name storage_r1, ''log_pointers'', p]) = Some v' \<longrightarrow>
        smallest_log_index table_two_logs (zookeeper_path storage_r1) p \<le> v')"
    by (intro exI conjI)
  with wf before small show ?thesis by (intro conjI)
qed

(* ==== end of theorems ==== *)

end
